theory Spec2Isabelle
  imports Complex_Main "HOL-Library.AList" "HOL-Library.Multiset"
begin

section \<open>The task distribution algorithm of \<^verbatim>\<open>src/utils.ts\<close>\<close>

text \<open>
  The development embeds \<^verbatim>\<open>distributeTasksSmartly\<close> and \<^verbatim>\<open>distributeTasksEvenly\<close>.
  Conventions of the embedding:
  \<^item> A JavaScript string is a \<^typ>\<open>string\<close> holding its UTF-8 bytes, so the Arabic
    literals of the source are byte lists; only equality of subjects and the test
    "is this key an array index" are ever computed on them.
  \<^item> \<^verbatim>\<open>totalDays\<close> and every counter are mathematical integers: the source's numbers
    are doubles, which are exact on the integers the loops can reach.
  \<^item> A \<^verbatim>\<open>Task\<close> object is a record value. The source writes \<^verbatim>\<open>task.dayIndex = day\<close>
    on the object it has just removed from a queue and then appends that object to the
    result, so the result list of the model holds the objects after the write. The
    elements of the input array are taken to be pairwise different objects.
\<close>

subsection \<open>Data\<close>

record Task =
  id_t :: string
  subject :: string
  topic :: string
  isCompleted :: bool
  dayIndex :: int
  color :: "string option"

datatype error = TypeError

text \<open>
  \<^verbatim>\<open>const queues: Record<string, Task[]> = {}\<close> is an ordinary object used as a
  dictionary. Two features of ordinary objects are visible to the algorithm and are
  part of the model:
  \<^item> \<^verbatim>\<open>Object.keys\<close> and \<^verbatim>\<open>Object.values\<close> list the own properties whose name is an
    array index (a canonical decimal numeral below \<open>2^32 - 1\<close>) first, in ascending
    numeric order, and then the other names in the order of their creation;
  \<^item> the name \<^verbatim>\<open>__proto__\<close> is not an own property: \<^verbatim>\<open>queues['__proto__'] = []\<close> runs
    the setter inherited from \<^verbatim>\<open>Object.prototype\<close>, which installs the array as the
    prototype of \<^verbatim>\<open>queues\<close>, and \<^verbatim>\<open>queues['__proto__']\<close> reads that prototype back.
    The array is then invisible to \<^verbatim>\<open>Object.keys\<close> and \<^verbatim>\<open>Object.values\<close>.

  \<open>own\<close> holds the own properties in creation order, \<open>proto\<close> the array installed as
  prototype, if any.
\<close>

record Queues =
  own :: "(string \<times> Task list) list"
  proto :: "Task list option"

definition empty_object :: Queues where
  "empty_object = \<lparr>own = [], proto = None\<rparr>"

text \<open>
  \<open>store q k v\<close> makes \<open>v\<close> the array found under name \<open>k\<close>. It models both the
  assignment \<^verbatim>\<open>queues[k] = []\<close> and the effect on \<^verbatim>\<open>queues\<close> of mutating in place
  (\<^verbatim>\<open>push\<close>, \<^verbatim>\<open>shift\<close>) the array found under \<open>k\<close>: an existing own property keeps its
  position, a new one goes last.
\<close>

definition store :: "Queues \<Rightarrow> string \<Rightarrow> Task list \<Rightarrow> Queues" where
  "store q k v =
     (if k = ''__proto__'' then q\<lparr>proto := Some v\<rparr>
      else q\<lparr>own := AList.update k v (own q)\<rparr>)"

text \<open>
  \<open>lookup q k\<close> is \<^verbatim>\<open>queues[k]\<close>, with \<open>None\<close> when no array is found there. The names
  the program looks up are the subjects of the input, which are own properties or
  \<^verbatim>\<open>__proto__\<close>, and the five fixed subjects, which no prototype object defines.
\<close>

definition lookup :: "Queues \<Rightarrow> string \<Rightarrow> Task list option" where
  "lookup q k = (if k = ''__proto__'' then proto q else map_of (own q) k)"

definition is_digit :: "char \<Rightarrow> bool" where
  "is_digit c = (c \<in> set ''0123456789'')"

definition digits_value :: "string \<Rightarrow> int" where
  "digits_value k = foldl (\<lambda>n c. 10 * n + (of_char c - 48)) 0 k"

definition is_array_index :: "string \<Rightarrow> bool" where
  "is_array_index k =
     (k \<noteq> [] \<and> list_all is_digit k \<and> (if hd k = CHR ''0'' then k = ''0'' else True)
      \<and> digits_value k < 4294967295)"

definition Object_keys :: "Queues \<Rightarrow> string list" where
  "Object_keys q =
     (let ks = map fst (own q)
      in sort_key digits_value (filter is_array_index ks)
         @ filter (\<lambda>k. \<not> is_array_index k) ks)"

definition Object_values :: "Queues \<Rightarrow> Task list list" where
  "Object_values q =
     map (\<lambda>k. case map_of (own q) k of Some v \<Rightarrow> v | None \<Rightarrow> []) (Object_keys q)"

subsection \<open>Step 1: the queues\<close>

text \<open>
  \<^verbatim>\<open>Array.from(new Set(xs))\<close>: a set keeps the first occurrence of every element, in
  insertion order.
\<close>

definition Set_add :: "'a list \<Rightarrow> 'a \<Rightarrow> 'a list" where
  "Set_add s x = (if x \<in> set s then s else s @ [x])"

definition Array_from_Set :: "'a list \<Rightarrow> 'a list" where
  "Array_from_Set xs = foldl Set_add [] xs"

text \<open>\<^verbatim>\<open>allSubjects.forEach(s => queues[s] = [])\<close>, on the empty object.\<close>

definition init_queues :: "string list \<Rightarrow> Queues" where
  "init_queues subjects = foldl (\<lambda>q s. store q s []) empty_object subjects"

text \<open>
  \<^verbatim>\<open>queues[t.subject].push(t)\<close> throws a \<^verbatim>\<open>TypeError\<close> when nothing is found under the
  subject.
\<close>

definition push_task :: "Queues \<Rightarrow> Task \<Rightarrow> error + Queues" where
  "push_task q t =
     (case lookup q (subject t) of
        None \<Rightarrow> Inl TypeError
      | Some v \<Rightarrow> Inr (store q (subject t) (v @ [t])))"

fun push_tasks :: "Queues \<Rightarrow> Task list \<Rightarrow> error + Queues" where
  "push_tasks q [] = Inr q"
| "push_tasks q (t # ts) =
     (case push_task q t of Inl e \<Rightarrow> Inl e | Inr q' \<Rightarrow> push_tasks q' ts)"

subsection \<open>Step 2: the rotation\<close>

definition physics :: string where
  "physics = [CHR 0xD8, CHR 0xA7, CHR 0xD9, CHR 0x84, CHR 0xD9, CHR 0x81, CHR 0xD9, CHR 0x8A,
     CHR 0xD8, CHR 0xB2, CHR 0xD9, CHR 0x8A, CHR 0xD8, CHR 0xA7, CHR 0xD8, CHR 0xA1]"

definition arabic :: string where
  "arabic = [CHR 0xD8, CHR 0xA7, CHR 0xD9, CHR 0x84, CHR 0xD9, CHR 0x84, CHR 0xD8, CHR 0xBA,
     CHR 0xD8, CHR 0xA9, CHR 0x20, CHR 0xD8, CHR 0xA7, CHR 0xD9, CHR 0x84, CHR 0xD8, CHR 0xB9,
     CHR 0xD8, CHR 0xB1, CHR 0xD8, CHR 0xA8, CHR 0xD9, CHR 0x8A, CHR 0xD8, CHR 0xA9]"

definition chemistry :: string where
  "chemistry = [CHR 0xD8, CHR 0xA7, CHR 0xD9, CHR 0x84, CHR 0xD9, CHR 0x83, CHR 0xD9, CHR 0x8A,
     CHR 0xD9, CHR 0x85, CHR 0xD9, CHR 0x8A, CHR 0xD8, CHR 0xA7, CHR 0xD8, CHR 0xA1]"

definition english :: string where
  "english = [CHR 0xD8, CHR 0xA7, CHR 0xD9, CHR 0x84, CHR 0xD9, CHR 0x84, CHR 0xD8, CHR 0xBA,
     CHR 0xD8, CHR 0xA9, CHR 0x20, CHR 0xD8, CHR 0xA7, CHR 0xD9, CHR 0x84, CHR 0xD8, CHR 0xA5,
     CHR 0xD9, CHR 0x86, CHR 0xD8, CHR 0xAC, CHR 0xD9, CHR 0x84, CHR 0xD9, CHR 0x8A, CHR 0xD8,
     CHR 0xB2, CHR 0xD9, CHR 0x8A, CHR 0xD8, CHR 0xA9]"

definition biology_geology :: string where
  "biology_geology = [CHR 0xD8, CHR 0xA7, CHR 0xD9, CHR 0x84, CHR 0xD8, CHR 0xA3, CHR 0xD8,
     CHR 0xAD, CHR 0xD9, CHR 0x8A, CHR 0xD8, CHR 0xA7, CHR 0xD8, CHR 0xA1, CHR 0x20, CHR 0xD9,
     CHR 0x88, CHR 0xD8, CHR 0xA7, CHR 0xD9, CHR 0x84, CHR 0xD8, CHR 0xAC, CHR 0xD9, CHR 0x8A,
     CHR 0xD9, CHR 0x88, CHR 0xD9, CHR 0x84, CHR 0xD9, CHR 0x88, CHR 0xD8, CHR 0xAC, CHR 0xD9,
     CHR 0x8A, CHR 0xD8, CHR 0xA7]"

definition canonical_subjects :: "string list" where
  "canonical_subjects = [physics, arabic, chemistry, english, biology_geology]"

text \<open>
  \<^verbatim>\<open>allSubjects.forEach(s => { if (!balancedRotation.includes(s)) balancedRotation.push(s) })\<close>
  starting from the five fixed subjects.
\<close>

definition push_if_absent :: "string list \<Rightarrow> string \<Rightarrow> string list" where
  "push_if_absent r s = (if s \<in> set r then r else r @ [s])"

definition balancedRotation :: "Task list \<Rightarrow> string list" where
  "balancedRotation tasks =
     foldl push_if_absent canonical_subjects (Array_from_Set (map subject tasks))"

subsection \<open>Step 3: day by day\<close>

record AllocState =
  queues :: Queues
  distributedTasks :: "Task list"
  subjectPointer :: nat
  totalRemainingTasks :: int
  tasksAddedToday :: int
  attempts :: int

text \<open>\<^verbatim>\<open>Object.values(queues).forEach(q => totalRemainingTasks += q.length)\<close>\<close>

definition count_remaining :: "Queues \<Rightarrow> int" where
  "count_remaining q = foldl (\<lambda>total v. total + int (length v)) 0 (Object_values q)"

text \<open>\<^verbatim>\<open>Math.ceil(a / b)\<close> for integers \<open>a\<close> and \<open>b > 0\<close>.\<close>

definition ceil_div :: "int \<Rightarrow> int \<Rightarrow> int" where
  "ceil_div a b = - ((- a) div b)"

text \<open>
  \<^verbatim>\<open>balancedRotation[subjectPointer]\<close>; an index out of range reads \<^verbatim>\<open>undefined\<close>, which
  as a property name is the string \<^verbatim>\<open>undefined\<close>.
\<close>

definition subject_at :: "string list \<Rightarrow> nat \<Rightarrow> string" where
  "subject_at rotation i = (if i < length rotation then rotation ! i else ''undefined'')"

text \<open>
  The four statements both branches share: the task removed from the front of the
  array under \<open>k\<close> gets the day, joins the result, and the two counters move.
\<close>

definition take_task :: "int \<Rightarrow> string \<Rightarrow> Task \<Rightarrow> Task list \<Rightarrow> AllocState \<Rightarrow> AllocState" where
  "take_task day k task rest st =
     st\<lparr>queues := store (queues st) k rest,
        distributedTasks := distributedTasks st @ [task\<lparr>dayIndex := day\<rparr>],
        tasksAddedToday := tasksAddedToday st + 1,
        totalRemainingTasks := totalRemainingTasks st - 1\<rparr>"

text \<open>Lines 69 to 90: the pick from the rotation, the pointer and the counter.\<close>

definition rotation_step :: "string list \<Rightarrow> int \<Rightarrow> AllocState \<Rightarrow> AllocState" where
  "rotation_step rotation day st =
     (let currentSubject = subject_at rotation (subjectPointer st);
          st1 = (case lookup (queues st) currentSubject of
                   Some (task # rest) \<Rightarrow> take_task day currentSubject task rest st
                 | _ \<Rightarrow> st)
      in st1\<lparr>subjectPointer := (subjectPointer st + 1) mod length rotation,
             attempts := attempts st + 1\<rparr>)"

definition has_tasks :: "Queues \<Rightarrow> string \<Rightarrow> bool" where
  "has_tasks q k = (case lookup q k of Some (task # rest) \<Rightarrow> True | _ \<Rightarrow> False)"

text \<open>
  Lines 91 to 105: the fallback. The second component says whether the \<^verbatim>\<open>break\<close> of
  line 103 was taken. \<^verbatim>\<open>if (anySubject)\<close> tests a string or \<^verbatim>\<open>undefined\<close> for truth: it
  fails when \<^verbatim>\<open>find\<close> has found nothing and also when it has found the empty string.
\<close>

definition fallback_step :: "string list \<Rightarrow> int \<Rightarrow> int \<Rightarrow> AllocState \<Rightarrow> AllocState \<times> bool" where
  "fallback_step rotation day dailyTarget st =
     (if attempts st > int (length rotation) * 2 \<and> tasksAddedToday st < dailyTarget then
        (case find (has_tasks (queues st)) (Object_keys (queues st)) of
           Some anySubject \<Rightarrow>
             (if anySubject \<noteq> [] then
                (case lookup (queues st) anySubject of
                   Some (task # rest) \<Rightarrow> (take_task day anySubject task rest st, False)
                 | _ \<Rightarrow> (st, False))
              else (st, True))
         | None \<Rightarrow> (st, True))
      else (st, False))"

definition loop_body :: "string list \<Rightarrow> int \<Rightarrow> int \<Rightarrow> AllocState \<Rightarrow> AllocState \<times> bool" where
  "loop_body rotation day dailyTarget st =
     fallback_step rotation day dailyTarget (rotation_step rotation day st)"

definition loop_cond :: "int \<Rightarrow> AllocState \<Rightarrow> bool" where
  "loop_cond dailyTarget st = (tasksAddedToday st < dailyTarget \<and> totalRemainingTasks st > 0)"

text \<open>The \<^verbatim>\<open>while\<close> loop of line 67; \<open>None\<close> is a loop that never ends.\<close>

partial_function (option) fill_day ::
  "string list \<Rightarrow> int \<Rightarrow> int \<Rightarrow> AllocState \<Rightarrow> AllocState option" where
  "fill_day rotation day dailyTarget st =
     (if loop_cond dailyTarget st then
        (case loop_body rotation day dailyTarget st of
           (st', brk) \<Rightarrow> if brk then Some st' else fill_day rotation day dailyTarget st')
      else Some st)"

declare fill_day.simps [code]

text \<open>The \<^verbatim>\<open>for\<close> loop of line 49, with the \<^verbatim>\<open>break\<close> of line 56.\<close>

partial_function (option) day_loop ::
  "string list \<Rightarrow> int \<Rightarrow> int \<Rightarrow> AllocState \<Rightarrow> AllocState option" where
  "day_loop rotation totalDays day st =
     (if day < totalDays then
        (let remainingDays = totalDays - day;
             total = count_remaining (queues st)
         in if total = 0 then Some st
            else Option.bind
                   (fill_day rotation day (ceil_div total remainingDays)
                      (st\<lparr>totalRemainingTasks := total, tasksAddedToday := 0, attempts := 0\<rparr>))
                   (\<lambda>st'. day_loop rotation totalDays (day + 1) st'))
      else Some st)"

declare day_loop.simps [code]

subsection \<open>The exported functions\<close>

definition initial_state :: "Queues \<Rightarrow> AllocState" where
  "initial_state q =
     \<lparr>queues = q, distributedTasks = [], subjectPointer = 0,
      totalRemainingTasks = 0, tasksAddedToday = 0, attempts = 0\<rparr>"

text \<open>
  The result is \<open>None\<close> when a loop runs forever, \<open>Some (Inl e)\<close> when the call throws
  \<open>e\<close>, and \<open>Some (Inr ts)\<close> when it returns the array \<open>ts\<close>.
\<close>

definition distributeTasksSmartly :: "Task list \<Rightarrow> int \<Rightarrow> (error + Task list) option" where
  "distributeTasksSmartly tasks totalDays =
     (let allSubjects = Array_from_Set (map subject tasks);
          queues0 = init_queues allSubjects
      in case push_tasks queues0 tasks of
           Inl e \<Rightarrow> Some (Inl e)
         | Inr queues1 \<Rightarrow>
             map_option (\<lambda>st. Inr (distributedTasks st))
               (day_loop (balancedRotation tasks) totalDays 0 (initial_state queues1)))"

definition distributeTasksEvenly :: "Task list \<Rightarrow> int \<Rightarrow> (error + Task list) option" where
  "distributeTasksEvenly tasks totalDays = distributeTasksSmartly tasks totalDays"

subsection \<open>Auxiliary notions\<close>

text \<open>
  The loop ends: the counter \<open>attempts\<close> grows in every iteration, and once it has
  passed twice the length of the rotation every iteration that does not leave the loop
  adds a task.
\<close>

definition loop_measure :: "string list \<Rightarrow> int \<Rightarrow> AllocState \<Rightarrow> nat" where
  "loop_measure rot tgt st =
     nat (2 * int (length rot) + 1 - attempts st) + nat (tgt - tasksAddedToday st)"

text \<open>
  The scan of the fallback yields no name that line 94 accepts.
\<close>

definition scan_fails :: "Queues \<Rightarrow> bool" where
  "scan_fails q =
     (case find (has_tasks q) (Object_keys q) of None \<Rightarrow> True | Some k \<Rightarrow> k = [])"

text \<open>
  The number of tasks in the own queues, and in all queues, the prototype included.
\<close>

definition own_count :: "Queues \<Rightarrow> int" where
  "own_count q = sum_list (map (\<lambda>kv. int (length (snd kv))) (own q))"

definition all_count :: "Queues \<Rightarrow> int" where
  "all_count q = own_count q + (case proto q of None \<Rightarrow> 0 | Some v \<Rightarrow> int (length v))"

text \<open>Own property names are pairwise different, and \<^verbatim>\<open>__proto__\<close> is never one of them.\<close>

definition wf_queues :: "Queues \<Rightarrow> bool" where
  "wf_queues q = (distinct (map fst (own q)) \<and> ''__proto__'' \<notin> set (map fst (own q)))"

text \<open>
  How many tasks of a result carry day \<open>d\<close>, and how many carry an earlier day.
\<close>

definition assigned_on :: "int \<Rightarrow> Task list \<Rightarrow> int" where
  "assigned_on d ts = int (length (filter (\<lambda>t. dayIndex t = d) ts))"

definition assigned_before :: "int \<Rightarrow> Task list \<Rightarrow> int" where
  "assigned_before d ts = int (length (filter (\<lambda>t. dayIndex t < d) ts))"

text \<open>A task as \<^verbatim>\<open>generatePlan\<close> builds it, for the examples.\<close>

definition new_task :: "string \<Rightarrow> string \<Rightarrow> Task" where
  "new_task i s =
     \<lparr>id_t = i, subject = s, topic = ''topic'', isCompleted = False, dayIndex = 0,
      color = None\<rparr>"

text \<open>
  The invariant of the loop over the days, before day \<open>d\<close>, for a list of \<open>n\<close> tasks.
\<close>

definition day_inv :: "int \<Rightarrow> int \<Rightarrow> int \<Rightarrow> AllocState \<Rightarrow> bool" where
  "day_inv n totalDays d s =
     (wf_queues (queues s) \<and> 0 \<le> d \<and> d \<le> totalDays
      \<and> all_count (queues s) + int (length (distributedTasks s)) = n
      \<and> list_all (\<lambda>t. 0 \<le> dayIndex t \<and> dayIndex t < d) (distributedTasks s)
      \<and> sorted (map dayIndex (distributedTasks s))
      \<and> list_all (\<lambda>e. assigned_on e (distributedTasks s)
                         \<le> ceil_div (n - assigned_before e (distributedTasks s)) (totalDays - e))
           [0..d - 1])"

text \<open>The position at which subject \<open>s\<close> first occurs in the input.\<close>

definition first_occurrence :: "string \<Rightarrow> Task list \<Rightarrow> nat" where
  "first_occurrence s tasks = length (takeWhile (\<lambda>t. subject t \<noteq> s) tasks)"

text \<open>
  A task without its day index, and the queues and states in which a function has been
  applied to every task that still waits in a queue.
\<close>

definition erase_day :: "Task \<Rightarrow> Task" where
  "erase_day t = t\<lparr>dayIndex := 0\<rparr>"

definition map_queues :: "(Task \<Rightarrow> Task) \<Rightarrow> Queues \<Rightarrow> Queues" where
  "map_queues f q =
     \<lparr>own = map (\<lambda>kv. (fst kv, map f (snd kv))) (own q), proto = map_option (map f) (proto q)\<rparr>"

definition map_state :: "(Task \<Rightarrow> Task) \<Rightarrow> AllocState \<Rightarrow> AllocState" where
  "map_state f s = s\<lparr>queues := map_queues f (queues s)\<rparr>"

text \<open>
  An example for the filling loop: five tasks of the first and five of the second
  subject of the rotation, alternating, to be placed in one day; its queues, and the
  state in which the loop of day \<open>0\<close> starts.
\<close>

definition ten_tasks :: "Task list" where
  "ten_tasks =
     [new_task ''P1'' physics, new_task ''A1'' arabic, new_task ''P2'' physics,
      new_task ''A2'' arabic, new_task ''P3'' physics, new_task ''A3'' arabic,
      new_task ''P4'' physics, new_task ''A4'' arabic, new_task ''P5'' physics,
      new_task ''A5'' arabic]"

definition ten_queues :: Queues where
  "ten_queues =
     \<lparr>own = [(physics, [new_task ''P1'' physics, new_task ''P2'' physics,
                         new_task ''P3'' physics, new_task ''P4'' physics,
                         new_task ''P5'' physics]),
              (arabic, [new_task ''A1'' arabic, new_task ''A2'' arabic,
                        new_task ''A3'' arabic, new_task ''A4'' arabic,
                        new_task ''A5'' arabic])],
      proto = None\<rparr>"

definition ten_start :: AllocState where
  "ten_start =
     \<lparr>queues = ten_queues, distributedTasks = [], subjectPointer = 0,
      totalRemainingTasks = 10, tasksAddedToday = 0, attempts = 0\<rparr>"

text \<open>
  The state after at most \<open>n\<close> iterations of the \<^verbatim>\<open>while\<close> loop of line 67.
\<close>

primrec steps :: "string list \<Rightarrow> int \<Rightarrow> int \<Rightarrow> nat \<Rightarrow> AllocState \<Rightarrow> AllocState" where
  "steps rotation day dailyTarget 0 st = st"
| "steps rotation day dailyTarget (Suc n) st =
     (if loop_cond dailyTarget st then
        (case loop_body rotation day dailyTarget st of
           (st', brk) \<Rightarrow> if brk then st' else steps rotation day dailyTarget n st')
      else st)"

text \<open>
  The tasks that wait under a name, and the invariant that ties, subject by subject,
  the tasks already placed and the tasks still waiting to the input.
\<close>

definition pending :: "Queues \<Rightarrow> string \<Rightarrow> Task list" where
  "pending q k = (case lookup q k of Some v \<Rightarrow> v | None \<Rightarrow> [])"

definition fifo_inv :: "Task list \<Rightarrow> AllocState \<Rightarrow> bool" where
  "fifo_inv tasks s =
     (\<forall>k. filter (\<lambda>t. subject t = k) (map erase_day (distributedTasks s))
            @ map erase_day (pending (queues s) k)
          = filter (\<lambda>t. subject t = k) (map erase_day tasks)
        \<and> list_all (\<lambda>t. subject t = k) (pending (queues s) k))"

text \<open>
  The invariant of the loop over the days when nothing hangs on the prototype and no
  own property has the empty name.
\<close>

definition complete_inv :: "int \<Rightarrow> int \<Rightarrow> AllocState \<Rightarrow> bool" where
  "complete_inv totalDays d s =
     (wf_queues (queues s) \<and> proto (queues s) = None \<and> [] \<notin> set (map fst (own (queues s)))
      \<and> d \<le> totalDays
      \<and> (if d = totalDays then own_count (queues s) = 0 else True))"

section \<open>The filling loop\<close>

text \<open>Every change the loop makes to the queues and to the result is a \<open>take_task\<close>.\<close>

lemma take_task_fields [simp]:
  "attempts (take_task day k task rest st) = attempts st"
  "subjectPointer (take_task day k task rest st) = subjectPointer st"
  "tasksAddedToday (take_task day k task rest st) = tasksAddedToday st + 1"
  "totalRemainingTasks (take_task day k task rest st) = totalRemainingTasks st - 1"
  "queues (take_task day k task rest st) = store (queues st) k rest"
  "distributedTasks (take_task day k task rest st) = distributedTasks st @ [task\<lparr>dayIndex := day\<rparr>]"
  by (simp_all add: take_task_def)

lemma rotation_step_cases:
  obtains (miss)
    "rotation_step rot day st =
       st\<lparr>subjectPointer := (subjectPointer st + 1) mod length rot, attempts := attempts st + 1\<rparr>"
  | (pick) task rest where
    "lookup (queues st) (subject_at rot (subjectPointer st)) = Some (task # rest)"
    "rotation_step rot day st =
       (take_task day (subject_at rot (subjectPointer st)) task rest st)
         \<lparr>subjectPointer := (subjectPointer st + 1) mod length rot, attempts := attempts st + 1\<rparr>"
proof (cases "lookup (queues st) (subject_at rot (subjectPointer st))")
  case None
  then show ?thesis by (intro miss) (simp add: rotation_step_def)
next
  case (Some v)
  show ?thesis
  proof (cases v)
    case Nil
    with Some show ?thesis by (intro miss) (simp add: rotation_step_def)
  next
    case (Cons task rest)
    with Some show ?thesis by (intro pick [of task rest]) (simp_all add: rotation_step_def)
  qed
qed

lemma has_tasks_iff: "has_tasks q k \<longleftrightarrow> (\<exists>task rest. lookup q k = Some (task # rest))"
  by (auto simp: has_tasks_def split: option.splits list.splits)

lemma fallback_step_cases:
  obtains (idle)
    "\<not> (attempts st > int (length rot) * 2 \<and> tasksAddedToday st < tgt)"
    "fallback_step rot day tgt st = (st, False)"
  | (stop)
    "attempts st > int (length rot) * 2" "tasksAddedToday st < tgt"
    "scan_fails (queues st)"
    "fallback_step rot day tgt st = (st, True)"
  | (pick) k task rest where
    "attempts st > int (length rot) * 2" "tasksAddedToday st < tgt"
    "find (has_tasks (queues st)) (Object_keys (queues st)) = Some k" "k \<noteq> []"
    "lookup (queues st) k = Some (task # rest)"
    "fallback_step rot day tgt st = (take_task day k task rest st, False)"
proof (cases "attempts st > int (length rot) * 2 \<and> tasksAddedToday st < tgt")
  case False
  then show ?thesis by (intro idle) (auto simp: fallback_step_def)
next
  case guard: True
  show ?thesis
  proof (cases "find (has_tasks (queues st)) (Object_keys (queues st))")
    case None
    with guard show ?thesis by (intro stop) (auto simp: fallback_step_def scan_fails_def)
  next
    case (Some k)
    show ?thesis
    proof (cases "k = []")
      case True
      with guard Some show ?thesis by (intro stop) (auto simp: fallback_step_def scan_fails_def)
    next
      case False
      from Some have "has_tasks (queues st) k" by (auto simp: find_Some_iff)
      then obtain task rest where "lookup (queues st) k = Some (task # rest)"
        by (auto simp: has_tasks_iff)
      with guard Some False show ?thesis
        by (intro pick [of k task rest]) (auto simp: fallback_step_def)
    qed
  qed
qed

lemma loop_body_decreases:
  assumes "loop_cond tgt st" and "loop_body rot day tgt st = (st', False)"
  shows "loop_measure rot tgt st' < loop_measure rot tgt st"
proof -
  let ?s1 = "rotation_step rot day st"
  have a1: "attempts ?s1 = attempts st + 1"
    by (cases rule: rotation_step_cases [of rot day st]) simp_all
  have t1: "tasksAddedToday ?s1 = tasksAddedToday st \<or> tasksAddedToday ?s1 = tasksAddedToday st + 1"
    by (cases rule: rotation_step_cases [of rot day st]) simp_all
  from assms(2) have fb: "fallback_step rot day tgt ?s1 = (st', False)"
    by (simp add: loop_body_def)
  from assms(1) have c: "tasksAddedToday st < tgt" by (simp add: loop_cond_def)
  show ?thesis
  proof (cases rule: fallback_step_cases [where st = ?s1 and rot = rot and tgt = tgt and day = day])
    case idle
    with fb have "st' = ?s1" by simp
    with idle(1) a1 t1 c show ?thesis by (auto simp: loop_measure_def)
  next
    case stop
    with fb show ?thesis by simp
  next
    case (pick k task rest)
    with fb have "st' = take_task day k task rest ?s1" by simp
    with pick(1,2) a1 t1 c show ?thesis by (auto simp: loop_measure_def)
  qed
qed

text \<open>
  The proof rule of the loop: it returns, and a property of the state that every
  \<open>take_task\<close> under an unmet target preserves holds of the state it returns. It is
  left because the condition of the \<^verbatim>\<open>while\<close> fails or by the \<^verbatim>\<open>break\<close>, when the scan
  of the fallback has failed.
\<close>

lemma fill_day_rule:
  assumes init: "P st"
    and take: "\<And>s k task rest. P s \<Longrightarrow> tasksAddedToday s < tgt \<Longrightarrow>
                 lookup (queues s) k = Some (task # rest) \<Longrightarrow> P (take_task day k task rest s)"
    and frame: "\<And>s p a. P s \<Longrightarrow> P (s\<lparr>subjectPointer := p, attempts := a\<rparr>)"
  shows "\<exists>st'. fill_day rot day tgt st = Some st' \<and> P st' \<and>
           (\<not> loop_cond tgt st' \<or> scan_fails (queues st'))"
  using init
proof (induction "loop_measure rot tgt st" arbitrary: st rule: less_induct)
  case less
  show ?case
  proof (cases "loop_cond tgt st")
    case False
    with less.prems show ?thesis by (subst fill_day.simps) simp
  next
    case c: True
    let ?s1 = "rotation_step rot day st"
    from c have lt: "tasksAddedToday st < tgt" by (simp add: loop_cond_def)
    have P1: "P ?s1"
      by (cases rule: rotation_step_cases [of rot day st])
         (use less.prems lt take frame in auto)
    obtain st' brk where body: "loop_body rot day tgt st = (st', brk)"
      by (cases "loop_body rot day tgt st")
    then have fb: "fallback_step rot day tgt ?s1 = (st', brk)" by (simp add: loop_body_def)
    have unfold: "fill_day rot day tgt st = (if brk then Some st' else fill_day rot day tgt st')"
      using c body by (subst fill_day.simps) simp
    show ?thesis
    proof (cases rule: fallback_step_cases [where st = ?s1 and rot = rot and tgt = tgt and day = day])
      case idle
      with fb have eq: "st' = ?s1" "\<not> brk" by simp_all
      with body c have "loop_measure rot tgt st' < loop_measure rot tgt st"
        by (auto intro: loop_body_decreases)
      from less.hyps [OF this] P1 eq unfold show ?thesis by simp
    next
      case stop
      with fb have "st' = ?s1" "brk" by simp_all
      with P1 stop(3) unfold show ?thesis by simp
    next
      case (pick k task rest)
      with fb have eq: "st' = take_task day k task rest ?s1" "\<not> brk" by simp_all
      have "P st'" unfolding eq using P1 pick(2,5) by (rule take)
      moreover from body c eq have "loop_measure rot tgt st' < loop_measure rot tgt st"
        by (auto intro: loop_body_decreases)
      ultimately show ?thesis using less.hyps [of st'] eq unfold by simp
    qed
  qed
qed

lemma fill_day_total: "\<exists>st'. fill_day rot day tgt st = Some st'"
  using fill_day_rule [of "\<lambda>_. True" st tgt day rot] by auto

section \<open>The loop over the days\<close>

text \<open>
  The proof rule of the \<^verbatim>\<open>for\<close> loop: it returns, and a property of the day and the state
  that one filled day carries over to the next holds when the loop is left, which
  happens when the days are used up or when \<^verbatim>\<open>Object.values\<close> counts no task.
\<close>

lemma day_loop_rule:
  assumes init: "Q day st"
    and step: "\<And>d s s'. Q d s \<Longrightarrow> day \<le> d \<Longrightarrow> d < totalDays \<Longrightarrow>
                 count_remaining (queues s) \<noteq> 0 \<Longrightarrow>
                 fill_day rot d (ceil_div (count_remaining (queues s)) (totalDays - d))
                   (s\<lparr>totalRemainingTasks := count_remaining (queues s),
                      tasksAddedToday := 0, attempts := 0\<rparr>) = Some s' \<Longrightarrow>
                 Q (d + 1) s'"
  shows "\<exists>st' d'. day_loop rot totalDays day st = Some st' \<and> Q d' st' \<and> day \<le> d' \<and>
           (totalDays \<le> d' \<or> count_remaining (queues st') = 0)"
  using init step
proof (induction "nat (totalDays - day)" arbitrary: day st rule: less_induct)
  case less
  show ?case
  proof (cases "day < totalDays")
    case False
    then have "day_loop rot totalDays day st = Some st" by (subst day_loop.simps) simp
    with False less.prems(1) show ?thesis by (intro exI [of _ st] exI [of _ day]) simp
  next
    case running: True
    show ?thesis
    proof (cases "count_remaining (queues st) = 0")
      case True
      with running have "day_loop rot totalDays day st = Some st"
        by (subst day_loop.simps) (simp add: Let_def)
      with True less.prems(1) show ?thesis by (intro exI [of _ st] exI [of _ day]) simp
    next
      case False
      let ?s0 = "st\<lparr>totalRemainingTasks := count_remaining (queues st),
                     tasksAddedToday := 0, attempts := 0\<rparr>"
      let ?tgt = "ceil_div (count_remaining (queues st)) (totalDays - day)"
      obtain s' where fill: "fill_day rot day ?tgt ?s0 = Some s'"
        using fill_day_total by blast
      have unfold: "day_loop rot totalDays day st = day_loop rot totalDays (day + 1) s'"
        using running False fill by (subst day_loop.simps) (simp add: Let_def)
      have Q': "Q (day + 1) s'"
        using less.prems(1) _ running False fill by (rule less.prems(2)) simp
      have "\<exists>st' d'. day_loop rot totalDays (day + 1) s' = Some st' \<and> Q d' st' \<and> day + 1 \<le> d' \<and>
              (totalDays \<le> d' \<or> count_remaining (queues st') = 0)"
      proof (rule less.hyps)
        show "nat (totalDays - (day + 1)) < nat (totalDays - day)" using running by simp
        show "Q (day + 1) s'" by (fact Q')
      next
        fix d s s''
        assume "Q d s" "day + 1 \<le> d" "d < totalDays" "count_remaining (queues s) \<noteq> 0"
          "fill_day rot d (ceil_div (count_remaining (queues s)) (totalDays - d))
             (s\<lparr>totalRemainingTasks := count_remaining (queues s),
                tasksAddedToday := 0, attempts := 0\<rparr>) = Some s''"
        then show "Q (d + 1) s''" using less.prems(2) [of d s s''] by simp
      qed
      then obtain st' d' where "day_loop rot totalDays (day + 1) s' = Some st'" "Q d' st'"
        "day + 1 \<le> d'" "totalDays \<le> d' \<or> count_remaining (queues st') = 0"
        by blast
      with unfold show ?thesis by (intro exI [of _ st'] exI [of _ d']) simp
    qed
  qed
qed

lemma day_loop_total: "\<exists>st'. day_loop rot totalDays day st = Some st'"
  using day_loop_rule [of "\<lambda>_ _. True" day st totalDays rot] by auto

section \<open>The queues object\<close>

lemma lookup_store: "lookup (store q k v) k' = (if k' = k then Some v else lookup q k')"
  by (auto simp: lookup_def store_def update_conv')

lemma wf_queues_store: "wf_queues q \<Longrightarrow> wf_queues (store q k v)"
  by (auto simp: wf_queues_def store_def distinct_update dom_update)

lemma wf_queues_empty: "wf_queues empty_object"
  by (simp add: wf_queues_def empty_object_def)

lemma sum_update:
  "sum_list (map (\<lambda>kv. int (length (snd kv))) (AList.update k v al)) =
     sum_list (map (\<lambda>kv. int (length (snd kv))) al) + int (length v)
       - (case map_of al k of None \<Rightarrow> 0 | Some old \<Rightarrow> int (length old))"
  by (induction al) auto

lemma all_count_store:
  "all_count (store q k v) =
     all_count q + int (length v) - (case lookup q k of None \<Rightarrow> 0 | Some old \<Rightarrow> int (length old))"
  by (auto simp: all_count_def own_count_def store_def lookup_def sum_update split: option.splits)

lemma own_count_nonneg: "0 \<le> own_count q"
  by (auto simp: own_count_def intro!: sum_list_nonneg)

lemma own_le_all_count: "own_count q \<le> all_count q"
  by (simp add: all_count_def split: option.splits)

lemma proto_store: "proto (store q k v) = (if k = ''__proto__'' then Some v else proto q)"
  by (simp add: store_def)

lemma own_count_store:
  "k \<noteq> ''__proto__'' \<Longrightarrow> own_count (store q k v) =
     own_count q + int (length v) - (case lookup q k of None \<Rightarrow> 0 | Some old \<Rightarrow> int (length old))"
  by (auto simp: own_count_def store_def lookup_def sum_update split: option.splits)

subsection \<open>What \<^verbatim>\<open>Object.keys\<close> and \<^verbatim>\<open>Object.values\<close> see\<close>

lemma mset_Object_keys: "mset (Object_keys q) = mset (map fst (own q))"
  by (simp add: Object_keys_def Let_def)

lemma set_Object_keys: "set (Object_keys q) = set (map fst (own q))"
  using arg_cong [OF mset_Object_keys [of q], of set_mset] by (simp only: set_mset_mset)

lemma foldl_add_length:
  "foldl (\<lambda>total v. total + int (length v)) a xs = a + sum_list (map (\<lambda>v. int (length v)) xs)"
  by (induction xs arbitrary: a) auto

lemma values_of_distinct_keys:
  "distinct (map fst al) \<Longrightarrow>
     map (\<lambda>k. case map_of al k of Some v \<Rightarrow> v | None \<Rightarrow> []) (map fst al) = map snd al"
proof (induction al)
  case Nil
  then show ?case by simp
next
  case (Cons a al)
  obtain k v where a: "a = (k, v)" by (cases a)
  from Cons.prems a have notin: "k \<notin> set (map fst al)" and d: "distinct (map fst al)" by auto
  have "map (\<lambda>k'. case map_of (a # al) k' of Some v \<Rightarrow> v | None \<Rightarrow> []) (map fst al)
        = map (\<lambda>k'. case map_of al k' of Some v \<Rightarrow> v | None \<Rightarrow> []) (map fst al)"
    using notin a by (intro map_cong) auto
  with Cons.IH [OF d] a show ?case by simp
qed

lemma sum_list_mset_cong:
  fixes h :: "'a \<Rightarrow> int"
  assumes "mset xs = mset ys"
  shows "sum_list (map h xs) = sum_list (map h ys)"
proof -
  from assms have "mset (map h xs) = mset (map h ys)" by simp
  then have "sum_mset (mset (map h xs)) = sum_mset (mset (map h ys))" by (rule arg_cong)
  then show ?thesis by (simp only: sum_mset_sum_list)
qed

lemma count_remaining_own_count:
  assumes "wf_queues q"
  shows "count_remaining q = own_count q"
proof -
  let ?g = "\<lambda>k. case map_of (own q) k of Some v \<Rightarrow> v | None \<Rightarrow> []"
  let ?h = "\<lambda>k. int (length (?g k))"
  have "count_remaining q = sum_list (map ?h (Object_keys q))"
    by (simp add: count_remaining_def Object_values_def foldl_add_length comp_def)
  also have "\<dots> = sum_list (map ?h (map fst (own q)))"
    by (rule sum_list_mset_cong) (rule mset_Object_keys)
  also have "\<dots> = sum_list (map (\<lambda>v. int (length v)) (map ?g (map fst (own q))))"
    by (simp add: comp_def)
  also have "\<dots> = sum_list (map (\<lambda>v. int (length v)) (map snd (own q)))"
    using assms by (simp only: values_of_distinct_keys wf_queues_def)
  finally show ?thesis by (simp add: own_count_def comp_def)
qed

lemma own_lookup:
  assumes "wf_queues q" and "(k, v) \<in> set (own q)"
  shows "lookup q k = Some v"
proof -
  from assms have "k \<noteq> ''__proto__''" by (force simp: wf_queues_def)
  moreover from assms have "map_of (own q) k = Some v" by (simp add: wf_queues_def)
  ultimately show ?thesis by (simp add: lookup_def)
qed

lemma keys_store:
  assumes "lookup q k = Some v"
  shows "set (map fst (own (store q k v'))) = set (map fst (own q))"
proof (cases "k = ''__proto__''")
  case True
  then show ?thesis by (simp add: store_def)
next
  case False
  with assms have "map_of (own q) k = Some v" by (simp add: lookup_def)
  then have "k \<in> fst ` set (own q)" by (force dest: map_of_SomeD)
  with False show ?thesis by (auto simp: store_def dom_update)
qed

lemma no_own_tasks:
  assumes "wf_queues q" and "[] \<notin> set (map fst (own q))" and "scan_fails q"
  shows "own_count q = 0"
proof -
  have none: "find (has_tasks q) (Object_keys q) = None"
  proof (cases "find (has_tasks q) (Object_keys q)")
    case None
    then show ?thesis .
  next
    case (Some k)
    then have "k \<in> set (Object_keys q)" by (auto simp: find_Some_iff)
    moreover from assms(3) Some have "k = []" by (simp add: scan_fails_def)
    ultimately show ?thesis using assms(2) by (simp add: set_Object_keys)
  qed
  have "v = []" if "(k, v) \<in> set (own q)" for k v
  proof -
    from that have "k \<in> set (Object_keys q)" by (force simp: set_Object_keys)
    with none have "\<not> has_tasks q k" by (auto simp: find_None_iff)
    moreover from assms(1) that have "lookup q k = Some v" by (rule own_lookup)
    ultimately show ?thesis by (cases v) (auto simp: has_tasks_def)
  qed
  then have "map (\<lambda>kv. int (length (snd kv))) (own q) = map (\<lambda>kv. 0) (own q)"
    by (intro map_cong) auto
  then have "own_count q = sum_list (map (\<lambda>kv. 0) (own q))"
    unfolding own_count_def by (rule arg_cong)
  then show ?thesis by simp
qed

subsection \<open>Building the queues\<close>

lemma set_foldl_Set_add: "set (foldl Set_add s xs) = set s \<union> set xs"
  by (induction xs arbitrary: s) (auto simp: Set_add_def)

lemma distinct_foldl_Set_add: "distinct s \<Longrightarrow> distinct (foldl Set_add s xs)"
  by (induction xs arbitrary: s) (auto simp: Set_add_def)

lemma set_Array_from_Set: "set (Array_from_Set xs) = set xs"
  by (simp add: Array_from_Set_def set_foldl_Set_add)

lemma distinct_Array_from_Set: "distinct (Array_from_Set xs)"
  by (simp add: Array_from_Set_def distinct_foldl_Set_add)

lemma lookup_foldl_store:
  "lookup (foldl (\<lambda>q s. store q s []) q ss) k = (if k \<in> set ss then Some [] else lookup q k)"
  by (induction ss arbitrary: q) (auto simp: lookup_store)

lemma wf_foldl_store: "wf_queues q \<Longrightarrow> wf_queues (foldl (\<lambda>q s. store q s []) q ss)"
  by (induction ss arbitrary: q) (auto simp: wf_queues_store)

lemma all_count_foldl_store:
  "distinct ss \<Longrightarrow> \<forall>s\<in>set ss. lookup q s = None \<Longrightarrow>
     all_count (foldl (\<lambda>q s. store q s []) q ss) = all_count q"
proof (induction ss arbitrary: q)
  case Nil
  then show ?case by simp
next
  case (Cons a ss)
  from Cons.prems have "\<forall>s\<in>set ss. lookup (store q a []) s = None"
    by (auto simp: lookup_store)
  moreover from Cons.prems have "distinct ss" by simp
  ultimately have "all_count (foldl (\<lambda>q s. store q s []) (store q a []) ss)
                   = all_count (store q a [])"
    by (rule Cons.IH [rotated])
  also from Cons.prems have "\<dots> = all_count q" by (simp add: all_count_store)
  finally show ?case by simp
qed

lemma lookup_init_queues:
  "lookup (init_queues ss) k = (if k \<in> set ss then Some [] else None)"
  by (simp add: init_queues_def lookup_foldl_store) (simp add: lookup_def empty_object_def)

lemma wf_init_queues: "wf_queues (init_queues ss)"
  by (simp add: init_queues_def wf_foldl_store wf_queues_empty)

lemma all_count_init_queues: "distinct ss \<Longrightarrow> all_count (init_queues ss) = 0"
  unfolding init_queues_def
  by (subst all_count_foldl_store)
     (simp_all add: lookup_def empty_object_def all_count_def own_count_def)

text \<open>
  \<^verbatim>\<open>queues[t.subject].push(t)\<close> does not throw when every subject has been given an
  array, which line 23 sees to.
\<close>

lemma push_tasks_returns:
  assumes "\<forall>t\<in>set ts. lookup q (subject t) \<noteq> None" and "wf_queues q"
  shows "\<exists>q'. push_tasks q ts = Inr q' \<and> wf_queues q' \<and>
           all_count q' = all_count q + int (length ts) \<and>
           (\<forall>k. lookup q' k = None \<longleftrightarrow> lookup q k = None)"
  using assms
proof (induction ts arbitrary: q)
  case Nil
  then show ?case by simp
next
  case (Cons t ts)
  from Cons.prems obtain v where v: "lookup q (subject t) = Some v" by auto
  let ?q1 = "store q (subject t) (v @ [t])"
  have p: "push_task q t = Inr ?q1" using v by (simp add: push_task_def)
  have dom: "lookup ?q1 k = None \<longleftrightarrow> lookup q k = None" for k
    using v by (auto simp: lookup_store)
  have "\<forall>t'\<in>set ts. lookup ?q1 (subject t') \<noteq> None" using Cons.prems(1) dom by auto
  moreover have "wf_queues ?q1" using Cons.prems(2) by (rule wf_queues_store)
  ultimately obtain q' where q': "push_tasks ?q1 ts = Inr q'" "wf_queues q'"
    "all_count q' = all_count ?q1 + int (length ts)"
    "\<forall>k. lookup q' k = None \<longleftrightarrow> lookup ?q1 k = None"
    using Cons.IH [of ?q1] by blast
  have "all_count ?q1 = all_count q + 1" using v by (simp add: all_count_store)
  with q' p dom show ?case by simp
qed

lemma partition_returns:
  "\<exists>q. push_tasks (init_queues (Array_from_Set (map subject tasks))) tasks = Inr q \<and>
        wf_queues q \<and> all_count q = int (length tasks)"
proof -
  let ?q0 = "init_queues (Array_from_Set (map subject tasks))"
  have "\<forall>t\<in>set tasks. lookup ?q0 (subject t) \<noteq> None"
    by (simp add: lookup_init_queues set_Array_from_Set)
  from push_tasks_returns [OF this wf_init_queues]
  show ?thesis by (auto simp: all_count_init_queues distinct_Array_from_Set)
qed

lemma distributeTasksSmartly_unfold:
  assumes "push_tasks (init_queues (Array_from_Set (map subject tasks))) tasks = Inr q"
  shows "distributeTasksSmartly tasks totalDays =
           map_option (\<lambda>st. Inr (distributedTasks st))
             (day_loop (balancedRotation tasks) totalDays 0 (initial_state q))"
  using assms by (simp add: distributeTasksSmartly_def Let_def)

section \<open>One day\<close>

lemma ceil_div_ceiling: "ceil_div a b = \<lceil>real_of_int a / real_of_int b\<rceil>"
  by (simp add: ceil_div_def ceiling_divide_eq_div)

lemma ceil_div_mono: "0 < c \<Longrightarrow> a \<le> b \<Longrightarrow> ceil_div a c \<le> ceil_div b c"
  by (simp add: ceil_div_def zdiv_mono1)

lemma ceil_div_nonneg: "0 \<le> a \<Longrightarrow> 0 < c \<Longrightarrow> 0 \<le> ceil_div a c"
  using ceil_div_mono [of c 0 a] by (simp add: ceil_div_def)

text \<open>
  What one run of the \<^verbatim>\<open>while\<close> loop does: it appends the tasks it takes to the result,
  each with the day, it counts them in \<open>tasksAddedToday\<close>, which does not pass the
  target, and the queues lose as many tasks as the result gains.
\<close>

lemma fill_day_effect:
  assumes "wf_queues (queues s)" and "tasksAddedToday s \<le> tgt"
  shows "\<exists>s' new. fill_day rot day tgt s = Some s' \<and> wf_queues (queues s')
           \<and> distributedTasks s' = distributedTasks s @ new
           \<and> (\<forall>t\<in>set new. dayIndex t = day)
           \<and> tasksAddedToday s' = tasksAddedToday s + int (length new)
           \<and> tasksAddedToday s' \<le> tgt
           \<and> all_count (queues s') + int (length new) = all_count (queues s)"
proof -
  let ?P = "\<lambda>s'::AllocState. wf_queues (queues s') \<and> (\<exists>new. distributedTasks s' = distributedTasks s @ new
           \<and> (\<forall>t\<in>set new. dayIndex t = day)
           \<and> tasksAddedToday s' = tasksAddedToday s + int (length new)
           \<and> tasksAddedToday s' \<le> tgt
           \<and> all_count (queues s') + int (length new) = all_count (queues s))"
  have "\<exists>s'. fill_day rot day tgt s = Some s' \<and> ?P s' \<and>
          (\<not> loop_cond tgt s' \<or> scan_fails (queues s'))"
  proof (rule fill_day_rule [where P = ?P])
    show "?P s" using assms by simp
  next
    fix s1 k task rest
    assume P: "?P s1" and lt: "tasksAddedToday s1 < tgt"
      and l: "lookup (queues s1) k = Some (task # rest)"
    from P obtain new where new: "distributedTasks s1 = distributedTasks s @ new"
      "\<forall>t\<in>set new. dayIndex t = day"
      "tasksAddedToday s1 = tasksAddedToday s + int (length new)"
      "all_count (queues s1) + int (length new) = all_count (queues s)"
      by blast
    let ?new = "new @ [task\<lparr>dayIndex := day\<rparr>]"
    have "distributedTasks (take_task day k task rest s1) = distributedTasks s @ ?new"
      using new(1) by simp
    moreover have "\<forall>t\<in>set ?new. dayIndex t = day" using new(2) by simp
    moreover have "tasksAddedToday (take_task day k task rest s1)
                   = tasksAddedToday s + int (length ?new)"
      using new(3) by simp
    moreover have "tasksAddedToday (take_task day k task rest s1) \<le> tgt" using lt by simp
    moreover have "all_count (queues (take_task day k task rest s1)) + int (length ?new)
                   = all_count (queues s)"
      using new(4) l by (simp add: all_count_store)
    moreover have "wf_queues (queues (take_task day k task rest s1))"
      using P by (simp add: wf_queues_store)
    ultimately show "?P (take_task day k task rest s1)" by blast
  next
    fix s1 p a
    assume "?P s1"
    then show "?P (s1\<lparr>subjectPointer := p, attempts := a\<rparr>)" by simp
  qed
  then show ?thesis by blast
qed

section \<open>All days\<close>

lemma assigned_append:
  "assigned_on d (xs @ ys) = assigned_on d xs + assigned_on d ys"
  "assigned_before d (xs @ ys) = assigned_before d xs + assigned_before d ys"
  by (simp_all add: assigned_on_def assigned_before_def)

lemma assigned_on_none: "\<forall>t\<in>set ts. dayIndex t \<noteq> d \<Longrightarrow> assigned_on d ts = 0"
  by (simp add: assigned_on_def)

lemma assigned_on_all: "\<forall>t\<in>set ts. dayIndex t = d \<Longrightarrow> assigned_on d ts = int (length ts)"
  by (simp add: assigned_on_def)

lemma assigned_before_none: "\<forall>t\<in>set ts. \<not> dayIndex t < d \<Longrightarrow> assigned_before d ts = 0"
  by (simp add: assigned_before_def)

lemma assigned_before_all:
  "\<forall>t\<in>set ts. dayIndex t < d \<Longrightarrow> assigned_before d ts = int (length ts)"
  by (simp add: assigned_before_def)

lemma sorted_same_day: "\<forall>t\<in>set ts. dayIndex t = d \<Longrightarrow> sorted (map dayIndex ts)"
  by (induction ts) auto

lemma assigned_before_le: "assigned_before d ts \<le> int (length ts)"
  by (simp add: assigned_before_def)

lemma day_inv_step:
  assumes inv: "day_inv n totalDays d s" and d: "d < totalDays"
    and fill: "fill_day rot d (ceil_div (count_remaining (queues s)) (totalDays - d))
                 (s\<lparr>totalRemainingTasks := count_remaining (queues s),
                    tasksAddedToday := 0, attempts := 0\<rparr>) = Some s'"
  shows "day_inv n totalDays (d + 1) s'"
proof -
  let ?old = "distributedTasks s"
  let ?tgt = "ceil_div (count_remaining (queues s)) (totalDays - d)"
  let ?s0 = "s\<lparr>totalRemainingTasks := count_remaining (queues s),
                 tasksAddedToday := 0, attempts := 0\<rparr>"
  from inv have wf: "wf_queues (queues s)" and d0: "0 \<le> d"
    and n: "all_count (queues s) + int (length ?old) = n"
    and range: "\<forall>t\<in>set ?old. 0 \<le> dayIndex t \<and> dayIndex t < d"
    and srt: "sorted (map dayIndex ?old)"
    and pace: "\<forall>e\<in>set [0..d - 1]. assigned_on e ?old
                 \<le> ceil_div (n - assigned_before e ?old) (totalDays - e)"
    by (simp_all add: day_inv_def list_all_iff)
  have total: "count_remaining (queues s) = own_count (queues s)"
    using wf by (rule count_remaining_own_count)
  have tgt0: "0 \<le> ?tgt" using d by (simp add: total ceil_div_nonneg own_count_nonneg)
  from fill_day_effect [of ?s0 ?tgt rot d] wf tgt0 fill
  obtain new where wf': "wf_queues (queues s')"
    and out: "distributedTasks s' = ?old @ new"
    and new: "\<forall>t\<in>set new. dayIndex t = d"
    and len: "int (length new) \<le> ?tgt"
    and cnt: "all_count (queues s') + int (length new) = all_count (queues s)"
    by auto
  have n': "all_count (queues s') + int (length (distributedTasks s')) = n"
    using n cnt out by simp
  have range': "\<forall>t\<in>set (distributedTasks s'). 0 \<le> dayIndex t \<and> dayIndex t < d + 1"
    using range new d0 out by auto
  have srt': "sorted (map dayIndex (distributedTasks s'))"
  proof -
    have "sorted (map dayIndex new)" using new by (rule sorted_same_day)
    with srt range new out show ?thesis by (auto simp: sorted_append)
  qed
  have before_d: "assigned_before d ?old = int (length ?old)"
    using range by (simp add: assigned_before_all)
  have "assigned_on d ?old = 0" using range by (intro assigned_on_none) auto
  moreover have "assigned_on d new = int (length new)" using new by (rule assigned_on_all)
  ultimately have today: "assigned_on d (?old @ new) = int (length new)"
    by (simp add: assigned_append)
  have "?tgt \<le> ceil_div (n - int (length ?old)) (totalDays - d)"
    using d n own_le_all_count [of "queues s"] by (intro ceil_div_mono) (simp_all add: total)
  moreover have "assigned_before d new = 0" using new by (intro assigned_before_none) simp
  ultimately
  have pace_d: "assigned_on d (?old @ new)
                  \<le> ceil_div (n - assigned_before d (?old @ new)) (totalDays - d)"
    using len today before_d by (simp add: assigned_append)
  have pace_e: "assigned_on e (?old @ new)
                  \<le> ceil_div (n - assigned_before e (?old @ new)) (totalDays - e)"
    if "e \<in> set [0..d - 1]" for e
  proof -
    from that have "e < d" by simp
    with new have "assigned_on e new = 0"  by (intro assigned_on_none) simp
    moreover from \<open>e < d\<close> new have "assigned_before e new = 0"
      by (intro assigned_before_none) simp
    ultimately show ?thesis using pace that by (simp add: assigned_append)
  qed
  have pace': "\<forall>e\<in>set [0..d + 1 - 1]. assigned_on e (distributedTasks s')
          \<le> ceil_div (n - assigned_before e (distributedTasks s')) (totalDays - e)"
  proof
    fix e
    assume "e \<in> set [0..d + 1 - 1]"
    then have "e = d \<or> e \<in> set [0..d - 1]" by auto
    then show "assigned_on e (distributedTasks s')
          \<le> ceil_div (n - assigned_before e (distributedTasks s')) (totalDays - e)"
      unfolding out using pace_d pace_e by (elim disjE) simp_all
  qed
  from wf' d0 d n' range' srt' pace' show ?thesis
    unfolding day_inv_def list_all_iff by simp
qed

lemma day_loop_inv:
  assumes "day_inv n totalDays 0 st"
  shows "\<exists>st' d. day_loop rot totalDays 0 st = Some st' \<and> day_inv n totalDays d st'
           \<and> (totalDays \<le> d \<or> count_remaining (queues st') = 0)"
proof -
  have "\<exists>st' d'. day_loop rot totalDays 0 st = Some st' \<and> day_inv n totalDays d' st' \<and> 0 \<le> d' \<and>
           (totalDays \<le> d' \<or> count_remaining (queues st') = 0)"
    using assms by (rule day_loop_rule) (rule day_inv_step)
  then show ?thesis by blast
qed

lemma initial_day_inv:
  assumes "wf_queues q" and "0 \<le> totalDays"
  shows "day_inv (all_count q) totalDays 0 (initial_state q)"
  using assms by (simp add: day_inv_def initial_state_def)

text \<open>The joint statement about the result of a call with a positive number of days.\<close>

lemma distributeTasksSmartly_result:
  assumes "0 < totalDays"
  shows "\<exists>st d. distributeTasksSmartly tasks totalDays = Some (Inr (distributedTasks st))
           \<and> day_inv (int (length tasks)) totalDays d st
           \<and> (totalDays \<le> d \<or> count_remaining (queues st) = 0)"
proof -
  obtain q where q: "push_tasks (init_queues (Array_from_Set (map subject tasks))) tasks = Inr q"
    "wf_queues q" "all_count q = int (length tasks)"
    using partition_returns by blast
  from q(2) assms have "day_inv (all_count q) totalDays 0 (initial_state q)"
    by (intro initial_day_inv) simp_all
  from day_loop_inv [OF this, of "balancedRotation tasks"] q(3)
  obtain st d where "day_loop (balancedRotation tasks) totalDays 0 (initial_state q) = Some st"
    "day_inv (int (length tasks)) totalDays d st"
    "totalDays \<le> d \<or> count_remaining (queues st) = 0"
    by auto
  with distributeTasksSmartly_unfold [OF q(1), of totalDays] show ?thesis by auto
qed

section \<open>Order within a subject, and conservation\<close>

lemma pending_store: "pending (store q k v) k' = (if k' = k then v else pending q k')"
  by (simp add: pending_def lookup_store)

lemma erase_day_simps [simp]:
  "subject (erase_day t) = subject t"
  "id_t (erase_day t) = id_t t"
  "erase_day (t\<lparr>dayIndex := d\<rparr>) = erase_day t"
  by (simp_all add: erase_day_def)

lemma fifo_inv_take_task:
  assumes inv: "fifo_inv tasks s" and l: "lookup (queues s) k = Some (task # rest)"
  shows "fifo_inv tasks (take_task day k task rest s)"
proof -
  from l have p: "pending (queues s) k = task # rest" by (simp add: pending_def)
  with inv have subj: "subject task = k" and rest: "list_all (\<lambda>t. subject t = k) rest"
    by (auto simp: fifo_inv_def dest: spec [of _ k])
  have "filter (\<lambda>t. subject t = k') (map erase_day (distributedTasks s @ [task\<lparr>dayIndex := day\<rparr>]))
          @ map erase_day (pending (store (queues s) k rest) k')
        = filter (\<lambda>t. subject t = k') (map erase_day tasks)
        \<and> list_all (\<lambda>t. subject t = k') (pending (store (queues s) k rest) k')" for k'
  proof (cases "k' = k")
    case True
    from inv have "filter (\<lambda>t. subject t = k) (map erase_day (distributedTasks s))
            @ map erase_day (pending (queues s) k)
          = filter (\<lambda>t. subject t = k) (map erase_day tasks)"
      by (simp add: fifo_inv_def)
    with True p subj rest show ?thesis by (simp add: pending_store)
  next
    case False
    from inv have "filter (\<lambda>t. subject t = k') (map erase_day (distributedTasks s))
            @ map erase_day (pending (queues s) k')
          = filter (\<lambda>t. subject t = k') (map erase_day tasks)
        \<and> list_all (\<lambda>t. subject t = k') (pending (queues s) k')"
      by (simp add: fifo_inv_def)
    with False subj show ?thesis by (simp add: pending_store)
  qed
  then show ?thesis by (simp add: fifo_inv_def)
qed

lemma fill_day_fifo_inv:
  assumes "fifo_inv tasks s" and "fill_day rot day tgt s = Some s'"
  shows "fifo_inv tasks s'"
proof -
  have "\<exists>s'. fill_day rot day tgt s = Some s' \<and> fifo_inv tasks s' \<and>
          (\<not> loop_cond tgt s' \<or> scan_fails (queues s'))"
  proof (rule fill_day_rule [where P = "fifo_inv tasks"])
    show "fifo_inv tasks s" by (fact assms(1))
  next
    fix s1 k task rest
    assume "fifo_inv tasks s1" "lookup (queues s1) k = Some (task # rest)"
    then show "fifo_inv tasks (take_task day k task rest s1)" by (rule fifo_inv_take_task)
  next
    fix s1 :: AllocState and p a
    assume "fifo_inv tasks s1"
    then show "fifo_inv tasks (s1\<lparr>subjectPointer := p, attempts := a\<rparr>)"
      by (simp add: fifo_inv_def)
  qed
  with assms(2) show ?thesis by simp
qed

lemma day_loop_fifo_inv:
  assumes "fifo_inv tasks s" and "day_loop rot totalDays day s = Some s'"
  shows "fifo_inv tasks s'"
proof -
  have "\<exists>st' d'. day_loop rot totalDays day s = Some st' \<and> fifo_inv tasks st' \<and> day \<le> d' \<and>
           (totalDays \<le> d' \<or> count_remaining (queues st') = 0)"
  proof (rule day_loop_rule [where Q = "\<lambda>_. fifo_inv tasks"])
    show "fifo_inv tasks s" by (fact assms(1))
  next
    fix d s1 s1'
    assume inv: "fifo_inv tasks s1"
      and fill: "fill_day rot d (ceil_div (count_remaining (queues s1)) (totalDays - d))
              (s1\<lparr>totalRemainingTasks := count_remaining (queues s1),
                  tasksAddedToday := 0, attempts := 0\<rparr>) = Some s1'"
    from inv have "fifo_inv tasks (s1\<lparr>totalRemainingTasks := count_remaining (queues s1),
                  tasksAddedToday := 0, attempts := 0\<rparr>)"
      by (simp add: fifo_inv_def)
    then show "fifo_inv tasks s1'" using fill by (rule fill_day_fifo_inv)
  qed
  with assms(2) show ?thesis by simp
qed

lemma pending_init_queues: "pending (init_queues ss) k = []"
  by (simp add: pending_def lookup_init_queues)

lemma push_tasks_pending:
  assumes "push_tasks q ts = Inr q'"
  shows "pending q' k = pending q k @ filter (\<lambda>t. subject t = k) ts"
  using assms
proof (induction ts arbitrary: q)
  case Nil
  then show ?case by simp
next
  case (Cons t ts)
  from Cons.prems obtain v where v: "lookup q (subject t) = Some v"
    and rest: "push_tasks (store q (subject t) (v @ [t])) ts = Inr q'"
    by (auto simp: push_task_def split: option.splits)
  from v have "pending (store q (subject t) (v @ [t])) k
                 = pending q k @ filter (\<lambda>t. subject t = k) [t]"
    by (auto simp: pending_store) (simp add: pending_def)
  with Cons.IH [OF rest] show ?case by simp
qed

lemma initial_fifo_inv:
  assumes "push_tasks (init_queues ss) tasks = Inr q"
  shows "fifo_inv tasks (initial_state q)"
proof -
  have "pending q k = filter (\<lambda>t. subject t = k) tasks" for k
    using push_tasks_pending [OF assms, of k] by (simp add: pending_init_queues)
  then show ?thesis
    by (simp add: fifo_inv_def initial_state_def filter_map comp_def list_all_iff)
qed

text \<open>
  For every input, the tasks of a subject that are in the result are, in their order,
  the first tasks of that subject in the input.
\<close>

lemma subject_order_kept:
  assumes "distributeTasksSmartly tasks totalDays = Some (Inr out)"
  shows "\<exists>waiting. filter (\<lambda>t. subject t = k) (map erase_day out) @ waiting
           = filter (\<lambda>t. subject t = k) (map erase_day tasks)"
proof -
  obtain q where q: "push_tasks (init_queues (Array_from_Set (map subject tasks))) tasks = Inr q"
    using partition_returns by blast
  from assms obtain st where
    loop: "day_loop (balancedRotation tasks) totalDays 0 (initial_state q) = Some st"
    and out: "out = distributedTasks st"
    unfolding distributeTasksSmartly_unfold [OF q] by auto
  from initial_fifo_inv [OF q] loop have "fifo_inv tasks st" by (rule day_loop_fifo_inv)
  then show ?thesis unfolding out fifo_inv_def by blast
qed

subsection \<open>When no subject is \<^verbatim>\<open>__proto__\<close> or empty\<close>

lemma lookup_not_proto: "proto q = None \<Longrightarrow> lookup q k = Some v \<Longrightarrow> k \<noteq> ''__proto__''"
  by (auto simp: lookup_def)

lemma ceil_div_one: "ceil_div a 1 = a"
  by (simp add: ceil_div_def)

text \<open>
  With an empty prototype slot and no empty name the counter \<open>totalRemainingTasks\<close> is the number of tasks
  in the own queues, and the loop of a day is left with the target met or with no task
  left.
\<close>

lemma fill_day_completes:
  assumes "wf_queues (queues s)" and "proto (queues s) = None"
    and "[] \<notin> set (map fst (own (queues s)))"
    and "totalRemainingTasks s = own_count (queues s)" and "tasksAddedToday s = 0"
  shows "\<exists>s'. fill_day rot day tgt s = Some s' \<and> wf_queues (queues s')
           \<and> proto (queues s') = None \<and> [] \<notin> set (map fst (own (queues s')))
           \<and> tasksAddedToday s' + own_count (queues s') = own_count (queues s)
           \<and> (tgt \<le> tasksAddedToday s' \<or> own_count (queues s') = 0)"
proof -
  let ?P = "\<lambda>s'::AllocState. wf_queues (queues s') \<and> proto (queues s') = None
              \<and> [] \<notin> set (map fst (own (queues s')))
              \<and> totalRemainingTasks s' = own_count (queues s')
              \<and> tasksAddedToday s' + own_count (queues s') = own_count (queues s)"
  have "\<exists>s'. fill_day rot day tgt s = Some s' \<and> ?P s' \<and>
          (\<not> loop_cond tgt s' \<or> scan_fails (queues s'))"
  proof (rule fill_day_rule [where P = ?P])
    show "?P s" using assms by simp
  next
    fix s1 k task rest
    assume P: "?P s1" and l: "lookup (queues s1) k = Some (task # rest)"
    from P l have k: "k \<noteq> ''__proto__''" by (auto dest: lookup_not_proto)
    with l have "own_count (store (queues s1) k rest) = own_count (queues s1) - 1"
      by (simp add: own_count_store)
    with P k keys_store [OF l, of rest] show "?P (take_task day k task rest s1)"
      by (simp add: wf_queues_store proto_store)
  next
    fix s1 p a
    assume "?P s1"
    then show "?P (s1\<lparr>subjectPointer := p, attempts := a\<rparr>)" by simp
  qed
  then obtain s' where s': "fill_day rot day tgt s = Some s'" "?P s'"
    "\<not> loop_cond tgt s' \<or> scan_fails (queues s')"
    by blast
  have "tgt \<le> tasksAddedToday s' \<or> own_count (queues s') = 0"
  proof (cases "loop_cond tgt s'")
    case True
    with s'(3) have "scan_fails (queues s')" by simp
    with s'(2) show ?thesis by (simp add: no_own_tasks)
  next
    case False
    with s'(2) own_count_nonneg [of "queues s'"] show ?thesis by (auto simp: loop_cond_def)
  qed
  with s'(1,2) show ?thesis by simp
qed

lemma complete_inv_step:
  assumes inv: "complete_inv totalDays d s" and d: "d < totalDays"
    and fill: "fill_day rot d (ceil_div (count_remaining (queues s)) (totalDays - d))
                 (s\<lparr>totalRemainingTasks := count_remaining (queues s),
                    tasksAddedToday := 0, attempts := 0\<rparr>) = Some s'"
  shows "complete_inv totalDays (d + 1) s'"
proof -
  let ?total = "count_remaining (queues s)"
  let ?s0 = "s\<lparr>totalRemainingTasks := ?total, tasksAddedToday := 0, attempts := 0\<rparr>"
  let ?tgt = "ceil_div ?total (totalDays - d)"
  from inv have wf: "wf_queues (queues s)" and np: "proto (queues s) = None"
    and ne: "[] \<notin> set (map fst (own (queues s)))"
    by (simp_all add: complete_inv_def)
  have total: "?total = own_count (queues s)" using wf by (rule count_remaining_own_count)
  from fill_day_completes [of ?s0 rot d ?tgt] wf np ne total fill
  have wf': "wf_queues (queues s')" and np': "proto (queues s') = None"
    and ne': "[] \<notin> set (map fst (own (queues s')))"
    and sum: "tasksAddedToday s' + own_count (queues s') = own_count (queues s)"
    and fin: "?tgt \<le> tasksAddedToday s' \<or> own_count (queues s') = 0"
    by auto
  have "own_count (queues s') = 0" if "d + 1 = totalDays"
  proof -
    from that have "totalDays - d = 1" by simp
    then have "?tgt = own_count (queues s)" by (simp only: total ceil_div_one)
    with fin sum own_count_nonneg [of "queues s'"] show ?thesis by auto
  qed
  with wf' np' ne' d show ?thesis by (simp add: complete_inv_def)
qed

lemma proto_init_queues: "''__proto__'' \<notin> set ss \<Longrightarrow> proto (init_queues ss) = None"
proof -
  have "''__proto__'' \<notin> set ss \<Longrightarrow> proto (foldl (\<lambda>q s. store q s []) q ss) = proto q" for q
    by (induction ss arbitrary: q) (auto simp: proto_store)
  then show "''__proto__'' \<notin> set ss \<Longrightarrow> proto (init_queues ss) = None"
    by (simp add: init_queues_def empty_object_def)
qed

lemma push_tasks_proto:
  assumes "push_tasks q ts = Inr q'" and "''__proto__'' \<notin> set (map subject ts)"
  shows "proto q' = proto q"
  using assms
proof (induction ts arbitrary: q)
  case Nil
  then show ?case by simp
next
  case (Cons t ts)
  from Cons.prems obtain v where
    rest: "push_tasks (store q (subject t) (v @ [t])) ts = Inr q'"
    by (auto simp: push_task_def split: option.splits)
  from Cons.IH [OF rest] Cons.prems(2) show ?case by (auto simp: proto_store)
qed

lemma keys_init_queues: "set (map fst (own (init_queues ss))) \<subseteq> set ss"
proof -
  have "set (map fst (own (foldl (\<lambda>q s. store q s []) q ss))) \<subseteq> set (map fst (own q)) \<union> set ss"
    for q
  proof (induction ss arbitrary: q)
    case Nil
    then show ?case by simp
  next
    case (Cons a ss)
    have "set (map fst (own (store q a []))) \<subseteq> set (map fst (own q)) \<union> {a}"
      by (auto simp: store_def dom_update)
    with Cons [of "store q a []"] show ?case by auto
  qed
  from this [of empty_object] show ?thesis by (simp add: init_queues_def empty_object_def)
qed

lemma push_tasks_keys:
  assumes "push_tasks q ts = Inr q'"
  shows "set (map fst (own q')) = set (map fst (own q))"
  using assms
proof (induction ts arbitrary: q)
  case Nil
  then show ?case by simp
next
  case (Cons t ts)
  from Cons.prems obtain v where v: "lookup q (subject t) = Some v"
    and rest: "push_tasks (store q (subject t) (v @ [t])) ts = Inr q'"
    by (auto simp: push_task_def split: option.splits)
  from Cons.IH [OF rest] keys_store [OF v] show ?case by simp
qed

lemma nothing_pending:
  assumes "wf_queues q" and "proto q = None" and "own_count q = 0"
  shows "pending q k = []"
proof (cases "lookup q k")
  case None
  then show ?thesis by (simp add: pending_def)
next
  case (Some v)
  with assms(2) have "map_of (own q) k = Some v" by (auto simp: lookup_def split: if_splits)
  then have "(k, v) \<in> set (own q)" by (rule map_of_SomeD)
  then have "int (length v) \<in> set (map (\<lambda>kv. int (length (snd kv))) (own q))" by force
  then have "int (length v) \<le> own_count q"
    unfolding own_count_def by (intro member_le_sum_list) auto
  with assms(3) Some show ?thesis by (simp add: pending_def)
qed

lemma mset_by_key:
  assumes "\<And>k. filter (\<lambda>x. f x = k) xs = filter (\<lambda>x. f x = k) ys"
  shows "mset xs = mset ys"
proof (rule multiset_eqI)
  fix x
  have "count (mset xs) x = count (mset (filter (\<lambda>y. f y = f x) xs)) x" by simp
  also have "\<dots> = count (mset (filter (\<lambda>y. f y = f x) ys)) x" by (simp only: assms)
  also have "\<dots> = count (mset ys) x" by simp
  finally show "count (mset xs) x = count (mset ys) x" .
qed

text \<open>
  If no task of the input has the subject \<^verbatim>\<open>__proto__\<close> or the empty subject, and there
  is at least one day, the result holds, subject by subject, the tasks of the input in
  their order, each exactly once, so that the identifiers of the result are those of
  the input.
\<close>

lemma conservation_for_plain_subjects:
  assumes "0 < totalDays" and "''__proto__'' \<notin> set (map subject tasks)"
    and "[] \<notin> set (map subject tasks)"
  shows "\<exists>out. distributeTasksSmartly tasks totalDays = Some (Inr out)
           \<and> (\<forall>k. filter (\<lambda>t. subject t = k) (map erase_day out)
                     = filter (\<lambda>t. subject t = k) (map erase_day tasks))
           \<and> mset (map erase_day out) = mset (map erase_day tasks)
           \<and> mset (map id_t out) = mset (map id_t tasks)"
proof -
  let ?ss = "Array_from_Set (map subject tasks)"
  obtain q where q: "push_tasks (init_queues ?ss) tasks = Inr q" and wf: "wf_queues q"
    using partition_returns by blast
  from assms(2) have "proto (init_queues ?ss) = None"
    by (intro proto_init_queues) (simp add: set_Array_from_Set)
  with push_tasks_proto [OF q assms(2)] have np: "proto q = None" by simp
  from keys_init_queues [of ?ss] push_tasks_keys [OF q] assms(3)
  have ne: "[] \<notin> set (map fst (own q))" by (auto simp: set_Array_from_Set)
  let ?rot = "balancedRotation tasks"
  have "\<exists>st d'. day_loop ?rot totalDays 0 (initial_state q) = Some st
          \<and> complete_inv totalDays d' st \<and> 0 \<le> d'
          \<and> (totalDays \<le> d' \<or> count_remaining (queues st) = 0)"
  proof (rule day_loop_rule [where Q = "complete_inv totalDays"])
    show "complete_inv totalDays 0 (initial_state q)"
      using wf np ne assms(1) by (simp add: complete_inv_def initial_state_def)
  next
    fix d s s'
    assume "complete_inv totalDays d s" "d < totalDays"
      "fill_day ?rot d (ceil_div (count_remaining (queues s)) (totalDays - d))
         (s\<lparr>totalRemainingTasks := count_remaining (queues s),
            tasksAddedToday := 0, attempts := 0\<rparr>) = Some s'"
    then show "complete_inv totalDays (d + 1) s'" by (rule complete_inv_step)
  qed
  then obtain st d' where loop: "day_loop ?rot totalDays 0 (initial_state q) = Some st"
    and inv: "complete_inv totalDays d' st"
    and stop: "totalDays \<le> d' \<or> count_remaining (queues st) = 0"
    by blast
  from inv have wf': "wf_queues (queues st)" and np': "proto (queues st) = None"
    by (simp_all add: complete_inv_def)
  have empty: "own_count (queues st) = 0"
  proof (cases "totalDays \<le> d'")
    case True
    with inv show ?thesis by (simp add: complete_inv_def split: if_splits)
  next
    case False
    with stop wf' show ?thesis by (simp add: count_remaining_own_count)
  qed
  have fifo: "fifo_inv tasks st"
    using initial_fifo_inv [OF q] loop by (rule day_loop_fifo_inv)
  let ?out = "distributedTasks st"
  have by_subject: "filter (\<lambda>t. subject t = k) (map erase_day ?out)
                      = filter (\<lambda>t. subject t = k) (map erase_day tasks)" for k
    using fifo nothing_pending [OF wf' np' empty, of k]
    by (auto simp: fifo_inv_def dest: spec [of _ k])
  then have m: "mset (map erase_day ?out) = mset (map erase_day tasks)" by (rule mset_by_key)
  have "mset (map id_t (map erase_day ?out)) = mset (map id_t (map erase_day tasks))"
    using arg_cong [OF m, of "image_mset id_t"] by (simp only: mset_map)
  then have "mset (map id_t ?out) = mset (map id_t tasks)" by (simp add: comp_def)
  with by_subject m distributeTasksSmartly_unfold [OF q, of totalDays] loop
  show ?thesis by auto
qed

text \<open>
  Under the same conditions the tasks of a subject keep their order: they are in
  the result in the order of the input, and the days do not decrease along the result,
  so the earlier of two tasks of a subject comes first and has the earlier or the same
  day.
\<close>

lemma subject_order_for_plain_subjects:
  assumes "0 < totalDays" and "''__proto__'' \<notin> set (map subject tasks)"
    and "[] \<notin> set (map subject tasks)"
  shows "\<exists>out. distributeTasksSmartly tasks totalDays = Some (Inr out)
           \<and> (\<forall>k. filter (\<lambda>t. subject t = k) (map erase_day out)
                     = filter (\<lambda>t. subject t = k) (map erase_day tasks))
           \<and> sorted (map dayIndex out)"
proof -
  from conservation_for_plain_subjects [OF assms]
  obtain out where out: "distributeTasksSmartly tasks totalDays = Some (Inr out)"
    "\<forall>k. filter (\<lambda>t. subject t = k) (map erase_day out)
           = filter (\<lambda>t. subject t = k) (map erase_day tasks)"
    by blast
  from distributeTasksSmartly_result [OF assms(1), of tasks] out(1)
  have "sorted (map dayIndex out)" by (auto simp: day_inv_def)
  with out show ?thesis by blast
qed



section \<open>Termination and the degenerate day counts\<close>

text \<open>
  Claim C10. For every task list and every integer \<open>totalDays\<close> the call returns: it
  neither loops forever nor throws. The inner loop ends by \<open>fill_day_rule\<close>, the outer one
  by \<open>day_loop_rule\<close>, and the queues are built without a \<^verbatim>\<open>TypeError\<close>.
\<close>

theorem distributeTasksSmartly_terminates:
  "\<exists>out. distributeTasksSmartly tasks totalDays = Some (Inr out)"
proof -
  obtain q where "push_tasks (init_queues (Array_from_Set (map subject tasks))) tasks = Inr q"
    using partition_returns by blast
  then have "distributeTasksSmartly tasks totalDays =
               map_option (\<lambda>st. Inr (distributedTasks st))
                 (day_loop (balancedRotation tasks) totalDays 0 (initial_state q))"
    by (rule distributeTasksSmartly_unfold)
  moreover obtain st' where
    "day_loop (balancedRotation tasks) totalDays 0 (initial_state q) = Some st'"
    using day_loop_total by blast
  ultimately show ?thesis by simp
qed

text \<open>
  Claim C6. When \<open>totalDays \<le> 0\<close> the loop over the days runs no iteration: it hands
  back the state it was given, so no task is taken from a queue and given a day, and
  the call returns the empty list.
\<close>

theorem no_days_no_assignments:
  assumes "totalDays \<le> 0"
  shows "day_loop rotation totalDays 0 st = Some st
         \<and> distributeTasksSmartly tasks totalDays = Some (Inr [])"
proof -
  have loop: "day_loop rot totalDays 0 s = Some s" for rot s
    using assms by (subst day_loop.simps) simp
  obtain q where "push_tasks (init_queues (Array_from_Set (map subject tasks))) tasks = Inr q"
    using partition_returns by blast
  then have "distributeTasksSmartly tasks totalDays =
               map_option (\<lambda>st. Inr (distributedTasks st))
                 (day_loop (balancedRotation tasks) totalDays 0 (initial_state q))"
    by (rule distributeTasksSmartly_unfold)
  with loop show ?thesis by (simp add: initial_state_def)
qed

theorem no_days_no_assignments_witness:
  "(-1::int) \<le> 0
   \<and> day_loop canonical_subjects (-1) 0 (initial_state empty_object)
       = Some (initial_state empty_object)
   \<and> distributeTasksSmartly
        [\<lparr>id_t = ''t1'', subject = physics, topic = ''waves'', isCompleted = False,
          dayIndex = 7, color = None\<rparr>] (-1) = Some (Inr [])"
  using no_days_no_assignments [of "-1" canonical_subjects "initial_state empty_object"
      "[\<lparr>id_t = ''t1'', subject = physics, topic = ''waves'', isCompleted = False,
         dayIndex = 7, color = None\<rparr>]"]
  by simp

section \<open>Redistribution\<close>

text \<open>
  Claim C8. \<^verbatim>\<open>distributeTasksEvenly\<close>, which the redistribute action calls, returns for
  every task list and every \<open>totalDays\<close> what \<^verbatim>\<open>distributeTasksSmartly\<close> returns.
\<close>

theorem distributeTasksEvenly_is_distributeTasksSmartly:
  "distributeTasksEvenly tasks totalDays = distributeTasksSmartly tasks totalDays"
  by (simp add: distributeTasksEvenly_def)

section \<open>Range, order and pacing\<close>

text \<open>
  Claim C4. For a positive \<open>totalDays\<close> the call returns a list in which every task has
  a day index from \<open>0\<close> up to, not including, \<open>totalDays\<close>, and the day indices never
  decrease along the list, so the tasks of a day come before those of the next. Within
  a day the order is the order of the picks: one run of the filling loop only appends
  to the result, each appended task carrying the day.
\<close>

theorem day_range_and_order:
  assumes "0 < totalDays"
  shows "(\<exists>out. distributeTasksSmartly tasks totalDays = Some (Inr out)
            \<and> (\<forall>t\<in>set out. 0 \<le> dayIndex t \<and> dayIndex t < totalDays)
            \<and> sorted (map dayIndex out))
         \<and> (\<exists>s' new. fill_day rotation day dailyTarget s = Some s'
              \<and> distributedTasks s' = distributedTasks s @ new
              \<and> (\<forall>t\<in>set new. dayIndex t = day))"
proof
  from distributeTasksSmartly_result [OF assms, of tasks]
  obtain st d where run: "distributeTasksSmartly tasks totalDays = Some (Inr (distributedTasks st))"
    and inv: "day_inv (int (length tasks)) totalDays d st"
    by blast
  from inv have "\<forall>t\<in>set (distributedTasks st). 0 \<le> dayIndex t \<and> dayIndex t < totalDays"
    by (auto simp: day_inv_def list_all_iff)
  moreover from inv have "sorted (map dayIndex (distributedTasks st))"
    by (simp add: day_inv_def)
  ultimately show "\<exists>out. distributeTasksSmartly tasks totalDays = Some (Inr out)
            \<and> (\<forall>t\<in>set out. 0 \<le> dayIndex t \<and> dayIndex t < totalDays)
            \<and> sorted (map dayIndex out)"
    using run by blast
next
  let ?P = "\<lambda>s'::AllocState. \<exists>new. distributedTasks s' = distributedTasks s @ new
              \<and> (\<forall>t\<in>set new. dayIndex t = day)"
  have "\<exists>s'. fill_day rotation day dailyTarget s = Some s' \<and> ?P s' \<and>
          (\<not> loop_cond dailyTarget s'
           \<or> scan_fails (queues s'))"
  proof (rule fill_day_rule [where P = ?P])
    show "?P s" by simp
  next
    fix s1 k task rest
    assume "?P s1"
    then obtain new where "distributedTasks s1 = distributedTasks s @ new"
      "\<forall>t\<in>set new. dayIndex t = day"
      by blast
    then have "distributedTasks (take_task day k task rest s1)
                 = distributedTasks s @ (new @ [task\<lparr>dayIndex := day\<rparr>])"
      "\<forall>t\<in>set (new @ [task\<lparr>dayIndex := day\<rparr>]). dayIndex t = day"
      by simp_all
    then show "?P (take_task day k task rest s1)" by blast
  next
    fix s1 p a
    assume "?P s1"
    then show "?P (s1\<lparr>subjectPointer := p, attempts := a\<rparr>)" by simp
  qed
  then show "\<exists>s' new. fill_day rotation day dailyTarget s = Some s'
              \<and> distributedTasks s' = distributedTasks s @ new
              \<and> (\<forall>t\<in>set new. dayIndex t = day)"
    by blast
qed

theorem day_range_and_order_witness:
  "(0::int) < 2
   \<and> distributeTasksSmartly
        [new_task ''t1'' physics, new_task ''t2'' ''Maths'', new_task ''t3'' physics] 2
       = Some (Inr [(new_task ''t1'' physics)\<lparr>dayIndex := 0\<rparr>,
                    (new_task ''t2'' ''Maths'')\<lparr>dayIndex := 0\<rparr>,
                    (new_task ''t3'' physics)\<lparr>dayIndex := 1\<rparr>])
   \<and> sorted (map dayIndex [(new_task ''t1'' physics)\<lparr>dayIndex := 0\<rparr>,
                    (new_task ''t2'' ''Maths'')\<lparr>dayIndex := 0\<rparr>,
                    (new_task ''t3'' physics)\<lparr>dayIndex := 1\<rparr>])
   \<and> list_all (\<lambda>t. 0 \<le> dayIndex t \<and> dayIndex t < 2)
        [(new_task ''t1'' physics)\<lparr>dayIndex := 0\<rparr>,
         (new_task ''t2'' ''Maths'')\<lparr>dayIndex := 0\<rparr>,
         (new_task ''t3'' physics)\<lparr>dayIndex := 1\<rparr>]"
proof -
  have run: "distributeTasksSmartly
        [new_task ''t1'' physics, new_task ''t2'' ''Maths'', new_task ''t3'' physics] 2
       = Some (Inr [(new_task ''t1'' physics)\<lparr>dayIndex := 0\<rparr>,
                    (new_task ''t2'' ''Maths'')\<lparr>dayIndex := 0\<rparr>,
                    (new_task ''t3'' physics)\<lparr>dayIndex := 1\<rparr>])"
    by code_simp
  have pos: "(0::int) < 2" by simp
  from day_range_and_order [OF pos, of
      "[new_task ''t1'' physics, new_task ''t2'' ''Maths'', new_task ''t3'' physics]"]
  show ?thesis unfolding run by (simp add: list_all_iff)
qed

text \<open>
  Claim C2. For a positive \<open>totalDays\<close> and every day \<open>d\<close> from \<open>0\<close> up to, not
  including, \<open>totalDays\<close>, the number of tasks of the result with day \<open>d\<close> is at most the
  ceiling of \<open>R / (totalDays - d)\<close>, where \<open>R\<close> is the number of input tasks minus the
  number of tasks of the result with an earlier day, that is the number of tasks not
  yet assigned when day \<open>d\<close> starts.
\<close>

theorem pacing_bound:
  assumes "0 < totalDays"
  shows "\<exists>out. distributeTasksSmartly tasks totalDays = Some (Inr out)
           \<and> (\<forall>d. 0 \<le> d \<and> d < totalDays \<longrightarrow>
                 assigned_on d out
                   \<le> \<lceil>real_of_int (int (length tasks) - assigned_before d out)
                        / real_of_int (totalDays - d)\<rceil>)"
proof -
  from distributeTasksSmartly_result [OF assms, of tasks]
  obtain st d' where run: "distributeTasksSmartly tasks totalDays = Some (Inr (distributedTasks st))"
    and inv: "day_inv (int (length tasks)) totalDays d' st"
    by blast
  let ?out = "distributedTasks st"
  let ?n = "int (length tasks)"
  from inv have range: "\<forall>t\<in>set ?out. dayIndex t < d'"
    and pace: "\<forall>e\<in>set [0..d' - 1]. assigned_on e ?out
                 \<le> ceil_div (?n - assigned_before e ?out) (totalDays - e)"
    and n: "all_count (queues st) + int (length ?out) = ?n"
    by (simp_all add: day_inv_def list_all_iff)
  have "assigned_on d ?out \<le> ceil_div (?n - assigned_before d ?out) (totalDays - d)"
    if d: "0 \<le> d" "d < totalDays" for d
  proof (cases "d < d'")
    case True
    with d have "d \<in> set [0..d' - 1]" by simp
    with pace show ?thesis by blast
  next
    case False
    with range have "assigned_on d ?out = 0" by (intro assigned_on_none) auto
    moreover have "0 \<le> all_count (queues st)"
      using own_count_nonneg [of "queues st"] own_le_all_count [of "queues st"] by simp
    with n assigned_before_le [of d ?out] have "0 \<le> ?n - assigned_before d ?out" by simp
    with d have "0 \<le> ceil_div (?n - assigned_before d ?out) (totalDays - d)"
      by (intro ceil_div_nonneg) simp_all
    ultimately show ?thesis by simp
  qed
  with run show ?thesis by (auto simp: ceil_div_ceiling)
qed

theorem pacing_bound_witness:
  "(0::int) < 2
   \<and> distributeTasksSmartly
        [new_task ''t1'' physics, new_task ''t2'' ''Maths'', new_task ''t3'' physics] 2
       = Some (Inr [(new_task ''t1'' physics)\<lparr>dayIndex := 0\<rparr>,
                    (new_task ''t2'' ''Maths'')\<lparr>dayIndex := 0\<rparr>,
                    (new_task ''t3'' physics)\<lparr>dayIndex := 1\<rparr>])
   \<and> assigned_on 0 [(new_task ''t1'' physics)\<lparr>dayIndex := 0\<rparr>,
                    (new_task ''t2'' ''Maths'')\<lparr>dayIndex := 0\<rparr>,
                    (new_task ''t3'' physics)\<lparr>dayIndex := 1\<rparr>]
       \<le> \<lceil>real_of_int (3 - assigned_before 0 [(new_task ''t1'' physics)\<lparr>dayIndex := 0\<rparr>,
                    (new_task ''t2'' ''Maths'')\<lparr>dayIndex := 0\<rparr>,
                    (new_task ''t3'' physics)\<lparr>dayIndex := 1\<rparr>]) / real_of_int (2 - 0)\<rceil>
   \<and> assigned_on 1 [(new_task ''t1'' physics)\<lparr>dayIndex := 0\<rparr>,
                    (new_task ''t2'' ''Maths'')\<lparr>dayIndex := 0\<rparr>,
                    (new_task ''t3'' physics)\<lparr>dayIndex := 1\<rparr>]
       \<le> \<lceil>real_of_int (3 - assigned_before 1 [(new_task ''t1'' physics)\<lparr>dayIndex := 0\<rparr>,
                    (new_task ''t2'' ''Maths'')\<lparr>dayIndex := 0\<rparr>,
                    (new_task ''t3'' physics)\<lparr>dayIndex := 1\<rparr>]) / real_of_int (2 - 1)\<rceil>"
proof -
  have run: "distributeTasksSmartly
        [new_task ''t1'' physics, new_task ''t2'' ''Maths'', new_task ''t3'' physics] 2
       = Some (Inr [(new_task ''t1'' physics)\<lparr>dayIndex := 0\<rparr>,
                    (new_task ''t2'' ''Maths'')\<lparr>dayIndex := 0\<rparr>,
                    (new_task ''t3'' physics)\<lparr>dayIndex := 1\<rparr>])"
    by code_simp
  have pos: "(0::int) < 2" by simp
  from pacing_bound [OF pos, of
      "[new_task ''t1'' physics, new_task ''t2'' ''Maths'', new_task ''t3'' physics]"]
  have "\<forall>d. 0 \<le> d \<and> d < 2 \<longrightarrow>
          assigned_on d [(new_task ''t1'' physics)\<lparr>dayIndex := 0\<rparr>,
                    (new_task ''t2'' ''Maths'')\<lparr>dayIndex := 0\<rparr>,
                    (new_task ''t3'' physics)\<lparr>dayIndex := 1\<rparr>]
            \<le> \<lceil>real_of_int (3 - assigned_before d [(new_task ''t1'' physics)\<lparr>dayIndex := 0\<rparr>,
                    (new_task ''t2'' ''Maths'')\<lparr>dayIndex := 0\<rparr>,
                    (new_task ''t3'' physics)\<lparr>dayIndex := 1\<rparr>]) / real_of_int (2 - d)\<rceil>"
    unfolding run by simp
  from this [rule_format, of 0] this [rule_format, of 1] run show ?thesis by simp
qed

section \<open>The rotation\<close>

lemma foldl_push_if_absent:
  "distinct xs \<Longrightarrow> foldl push_if_absent r xs = r @ filter (\<lambda>s. s \<notin> set r) xs"
proof (induction xs arbitrary: r)
  case Nil
  then show ?case by simp
next
  case (Cons x xs)
  show ?case
  proof (cases "x \<in> set r")
    case True
    with Cons show ?thesis by (simp add: push_if_absent_def)
  next
    case False
    from Cons.prems have "filter (\<lambda>s. s \<notin> set (r @ [x])) xs = filter (\<lambda>s. s \<notin> set r) xs"
      by (intro filter_cong) auto
    with Cons False show ?thesis by (simp add: push_if_absent_def)
  qed
qed

lemma Array_from_Set_snoc: "Array_from_Set (xs @ [x]) = Set_add (Array_from_Set xs) x"
  by (simp add: Array_from_Set_def)

lemma first_index_less:
  "a \<in> set xs \<Longrightarrow> length (takeWhile (\<lambda>y. y \<noteq> a) xs) < length xs"
  by (induction xs) auto

lemma first_index_append:
  "a \<in> set xs \<Longrightarrow> length (takeWhile (\<lambda>y. y \<noteq> a) (xs @ ys)) = length (takeWhile (\<lambda>y. y \<noteq> a) xs)"
  "a \<notin> set xs \<Longrightarrow> length (takeWhile (\<lambda>y. y \<noteq> a) (xs @ [a])) = length xs"
  by (induction xs) auto

lemma Array_from_Set_order:
  "sorted_wrt (\<lambda>a b. length (takeWhile (\<lambda>y. y \<noteq> a) xs) < length (takeWhile (\<lambda>y. y \<noteq> b) xs))
     (Array_from_Set xs)"
proof (induction xs rule: rev_induct)
  case Nil
  then show ?case by (simp add: Array_from_Set_def)
next
  case (snoc x xs)
  let ?fi = "\<lambda>zs a. length (takeWhile (\<lambda>y. y \<noteq> a) zs)"
  have old: "sorted_wrt (\<lambda>a b. ?fi (xs @ [x]) a < ?fi (xs @ [x]) b) (Array_from_Set xs)"
    using snoc.IH
    by (rule sorted_wrt_mono_rel [rotated]) (simp add: set_Array_from_Set first_index_append(1))
  show ?case
  proof (cases "x \<in> set xs")
    case True
    with old show ?thesis by (simp add: Array_from_Set_snoc Set_add_def set_Array_from_Set)
  next
    case False
    then have "?fi (xs @ [x]) a < ?fi (xs @ [x]) x" if "a \<in> set xs" for a
      using that by (simp add: first_index_append first_index_less)
    with old False show ?thesis
      by (simp add: Array_from_Set_snoc Set_add_def set_Array_from_Set sorted_wrt_append)
  qed
qed

lemma first_occurrence_map:
  "first_occurrence s tasks = length (takeWhile (\<lambda>y. y \<noteq> s) (map subject tasks))"
  by (simp add: first_occurrence_def takeWhile_map comp_def)

text \<open>
  Claim C7. The rotation is the five fixed subjects in their order, followed by the
  subjects of the input that are not among the five, each once, in the order in which
  they first occur in the input. Hence every subject of the input is in the rotation.
\<close>

theorem rotation_shape:
  "\<exists>extras. balancedRotation tasks
              = [physics, arabic, chemistry, english, biology_geology] @ extras
     \<and> distinct extras
     \<and> set extras = set (map subject tasks)
                      - set [physics, arabic, chemistry, english, biology_geology]
     \<and> sorted_wrt (\<lambda>a b. first_occurrence a tasks < first_occurrence b tasks) extras
     \<and> set (map subject tasks) \<subseteq> set (balancedRotation tasks)"
proof -
  let ?all = "Array_from_Set (map subject tasks)"
  let ?extras = "filter (\<lambda>s. s \<notin> set canonical_subjects) ?all"
  have rot: "balancedRotation tasks = canonical_subjects @ ?extras"
    by (simp add: balancedRotation_def foldl_push_if_absent distinct_Array_from_Set)
  have "sorted_wrt (\<lambda>a b. first_occurrence a tasks < first_occurrence b tasks) ?all"
    using Array_from_Set_order [of "map subject tasks"] by (simp add: first_occurrence_map)
  then have "sorted_wrt (\<lambda>a b. first_occurrence a tasks < first_occurrence b tasks) ?extras"
    by (rule sorted_wrt_filter)
  moreover have "distinct ?extras" by (simp add: distinct_Array_from_Set)
  moreover have "set ?extras = set (map subject tasks) - set canonical_subjects"
    by (auto simp: set_Array_from_Set)
  moreover have "set (map subject tasks) \<subseteq> set (balancedRotation tasks)"
    unfolding rot by (auto simp: set_Array_from_Set)
  ultimately show ?thesis using rot unfolding canonical_subjects_def by blast
qed

section \<open>Day indices of the input are not read\<close>

lemma map_of_map_values:
  "map_of (map (\<lambda>kv. (fst kv, g (snd kv))) al) k = map_option g (map_of al k)"
  by (induction al) auto

lemma update_map_values:
  "AList.update k (g v) (map (\<lambda>kv. (fst kv, g (snd kv))) al)
     = map (\<lambda>kv. (fst kv, g (snd kv))) (AList.update k v al)"
  by (induction al) auto

lemma lookup_map_queues: "lookup (map_queues f q) k = map_option (map f) (lookup q k)"
  by (simp add: lookup_def map_queues_def map_of_map_values)

lemma store_map_queues: "store (map_queues f q) k (map f v) = map_queues f (store q k v)"
  by (simp add: store_def map_queues_def update_map_values)

lemma Object_keys_map_queues: "Object_keys (map_queues f q) = Object_keys q"
  by (simp add: Object_keys_def map_queues_def comp_def)

lemma count_remaining_map_queues: "count_remaining (map_queues f q) = count_remaining q"
proof -
  have "Object_values (map_queues f q) = map (map f) (Object_values q)"
    unfolding Object_values_def Object_keys_map_queues
    by (simp add: map_queues_def map_of_map_values comp_def split: option.splits)
  then show ?thesis by (simp add: count_remaining_def foldl_add_length comp_def)
qed

lemma has_tasks_map_queues: "has_tasks (map_queues f q) = has_tasks q"
  by (auto simp: fun_eq_iff has_tasks_def lookup_map_queues split: option.splits list.splits)

lemma init_queues_map_queues: "map_queues f (init_queues ss) = init_queues ss"
proof -
  have "map_queues f (foldl (\<lambda>q s. store q s []) q ss)
          = foldl (\<lambda>q s. store q s []) (map_queues f q) ss" for q
    by (induction ss arbitrary: q) (simp_all add: store_map_queues [of f _ _ "[]", simplified])
  then show ?thesis by (simp add: init_queues_def) (simp add: map_queues_def empty_object_def)
qed

lemma push_tasks_map_queues:
  assumes "\<And>t. subject (f t) = subject t"
  shows "push_tasks (map_queues f q) (map f ts) = map_sum id (map_queues f) (push_tasks q ts)"
proof (induction ts arbitrary: q)
  case Nil
  then show ?case by simp
next
  case (Cons t ts)
  have "push_task (map_queues f q) (f t) = map_sum id (map_queues f) (push_task q t)"
    using store_map_queues [of f q "subject t" "_ @ [t]"]
    by (auto simp: push_task_def assms lookup_map_queues split: option.splits)
  with Cons.IH show ?case by (cases "push_task q t") simp_all
qed

lemma map_state_fields [simp]:
  "queues (map_state f s) = map_queues f (queues s)"
  "distributedTasks (map_state f s) = distributedTasks s"
  "subjectPointer (map_state f s) = subjectPointer s"
  "totalRemainingTasks (map_state f s) = totalRemainingTasks s"
  "tasksAddedToday (map_state f s) = tasksAddedToday s"
  "attempts (map_state f s) = attempts s"
  by (simp_all add: map_state_def)

lemma take_task_map_state:
  assumes "(f task)\<lparr>dayIndex := day\<rparr> = task\<lparr>dayIndex := day\<rparr>"
  shows "take_task day k (f task) (map f rest) (map_state f s)
           = map_state f (take_task day k task rest s)"
  using assms by (simp add: take_task_def map_state_def store_map_queues)

lemma rotation_step_map_state:
  assumes "\<And>t. (f t)\<lparr>dayIndex := day\<rparr> = t\<lparr>dayIndex := day\<rparr>"
  shows "rotation_step rot day (map_state f s) = map_state f (rotation_step rot day s)"
proof (cases "lookup (queues s) (subject_at rot (subjectPointer s))")
  case None
  then show ?thesis by (simp add: rotation_step_def lookup_map_queues map_state_def)
next
  case (Some v)
  show ?thesis
  proof (cases v)
    case Nil
    with Some show ?thesis by (simp add: rotation_step_def lookup_map_queues map_state_def)
  next
    case (Cons task rest)
    with Some show ?thesis
      by (simp add: rotation_step_def lookup_map_queues take_task_def map_state_def
            store_map_queues assms)
  qed
qed

lemma fallback_step_map_state:
  assumes "\<And>t. (f t)\<lparr>dayIndex := day\<rparr> = t\<lparr>dayIndex := day\<rparr>"
  shows "fallback_step rot day tgt (map_state f s)
           = map_prod (map_state f) id (fallback_step rot day tgt s)"
proof (cases rule: fallback_step_cases [where st = s and rot = rot and tgt = tgt and day = day])
  case idle
  from idle(1) show ?thesis by (auto simp: fallback_step_def)
next
  case stop
  from stop(1-3) show ?thesis
    by (auto simp: fallback_step_def scan_fails_def has_tasks_map_queues
          Object_keys_map_queues split: option.splits)
next
  case (pick k task rest)
  have "take_task day k (f task) (map f rest) (map_state f s)
          = map_state f (take_task day k task rest s)"
    by (rule take_task_map_state) (rule assms)
  with pick(1-5) show ?thesis
    by (simp add: fallback_step_def has_tasks_map_queues Object_keys_map_queues
          lookup_map_queues)
qed

lemma loop_body_map_state:
  assumes "\<And>t. (f t)\<lparr>dayIndex := day\<rparr> = t\<lparr>dayIndex := day\<rparr>"
  shows "loop_body rot day tgt (map_state f s)
           = map_prod (map_state f) id (loop_body rot day tgt s)"
  by (simp add: loop_body_def rotation_step_map_state [OF assms]
        fallback_step_map_state [OF assms])

lemma fill_day_map_state:
  assumes "\<And>t. (f t)\<lparr>dayIndex := day\<rparr> = t\<lparr>dayIndex := day\<rparr>"
  shows "fill_day rot day tgt (map_state f s) = map_option (map_state f) (fill_day rot day tgt s)"
proof (induction "loop_measure rot tgt s" arbitrary: s rule: less_induct)
  case less
  show ?case
  proof (cases "loop_cond tgt s")
    case False
    then have "\<not> loop_cond tgt (map_state f s)" by (simp add: loop_cond_def)
    then have "fill_day rot day tgt (map_state f s) = Some (map_state f s)"
      by (subst fill_day.simps) simp
    moreover from False have "fill_day rot day tgt s = Some s"
      by (subst fill_day.simps) simp
    ultimately show ?thesis by simp
  next
    case True
    then have c: "loop_cond tgt (map_state f s)" by (simp add: loop_cond_def)
    obtain s' brk where body: "loop_body rot day tgt s = (s', brk)"
      by (cases "loop_body rot day tgt s")
    then have body': "loop_body rot day tgt (map_state f s) = (map_state f s', brk)"
      by (simp add: loop_body_map_state [OF assms])
    have l: "fill_day rot day tgt (map_state f s)
               = (if brk then Some (map_state f s') else fill_day rot day tgt (map_state f s'))"
      using c body' by (subst fill_day.simps) simp
    have r: "fill_day rot day tgt s = (if brk then Some s' else fill_day rot day tgt s')"
      using True body by (subst fill_day.simps) simp
    show ?thesis
    proof (cases brk)
      case True
      with l r show ?thesis by simp
    next
      case False
      with True body have "loop_measure rot tgt s' < loop_measure rot tgt s"
        by (auto intro: loop_body_decreases)
      from less.hyps [OF this] False l r show ?thesis by simp
    qed
  qed
qed

lemma day_loop_map_state:
  assumes "\<And>t d. (f t)\<lparr>dayIndex := d\<rparr> = t\<lparr>dayIndex := d\<rparr>"
  shows "day_loop rot totalDays day (map_state f s)
           = map_option (map_state f) (day_loop rot totalDays day s)"
proof (induction "nat (totalDays - day)" arbitrary: day s rule: less_induct)
  case less
  let ?total = "count_remaining (queues s)"
  let ?s0 = "s\<lparr>totalRemainingTasks := ?total, tasksAddedToday := 0, attempts := 0\<rparr>"
  let ?tgt = "ceil_div ?total (totalDays - day)"
  show ?case
  proof (cases "day < totalDays \<and> ?total \<noteq> 0")
    case False
    then have "day_loop rot totalDays day (map_state f s) = Some (map_state f s)"
      by (subst day_loop.simps) (auto simp: Let_def count_remaining_map_queues)
    moreover from False have "day_loop rot totalDays day s = Some s"
      by (subst day_loop.simps) (auto simp: Let_def)
    ultimately show ?thesis by simp
  next
    case True
    obtain s' where fill: "fill_day rot day ?tgt ?s0 = Some s'"
      using fill_day_total by blast
    have eq: "(map_state f s)\<lparr>totalRemainingTasks := ?total, tasksAddedToday := 0, attempts := 0\<rparr>
            = map_state f ?s0"
      by (simp add: map_state_def)
    have "fill_day rot day ?tgt (map_state f ?s0) = Some (map_state f s')"
      using fill by (simp only: fill_day_map_state [OF assms] option.map)
    then have fill': "fill_day rot day ?tgt
        ((map_state f s)\<lparr>totalRemainingTasks := ?total, tasksAddedToday := 0, attempts := 0\<rparr>)
          = Some (map_state f s')"
      by (simp only: eq)
    have l: "day_loop rot totalDays day (map_state f s)
               = day_loop rot totalDays (day + 1) (map_state f s')"
      using True fill' by (subst day_loop.simps) (simp add: Let_def count_remaining_map_queues)
    have r: "day_loop rot totalDays day s = day_loop rot totalDays (day + 1) s'"
      using True fill by (subst day_loop.simps) (simp add: Let_def)
    from True have "nat (totalDays - (day + 1)) < nat (totalDays - day)" by simp
    from less.hyps [OF this] l r show ?thesis by simp
  qed
qed

lemma distributeTasksSmartly_map:
  assumes day: "\<And>t d. (f t)\<lparr>dayIndex := d\<rparr> = t\<lparr>dayIndex := d\<rparr>"
    and subj: "\<And>t. subject (f t) = subject t"
  shows "distributeTasksSmartly (map f tasks) totalDays = distributeTasksSmartly tasks totalDays"
proof -
  let ?ss = "Array_from_Set (map subject tasks)"
  have ss: "map subject (map f tasks) = map subject tasks" by (simp add: subj)
  then have rot: "balancedRotation (map f tasks) = balancedRotation tasks"
    by (simp only: balancedRotation_def)
  obtain q where q: "push_tasks (init_queues ?ss) tasks = Inr q"
    using partition_returns by blast
  have "push_tasks (map_queues f (init_queues ?ss)) (map f tasks)
          = map_sum id (map_queues f) (push_tasks (init_queues ?ss) tasks)"
    using subj by (rule push_tasks_map_queues)
  with q have q': "push_tasks (init_queues (Array_from_Set (map subject (map f tasks))))
                     (map f tasks) = Inr (map_queues f q)"
    by (simp only: ss init_queues_map_queues) simp
  have "initial_state (map_queues f q) = map_state f (initial_state q)"
    by (simp add: initial_state_def map_state_def)
  then have "day_loop (balancedRotation tasks) totalDays 0 (initial_state (map_queues f q))
          = map_option (map_state f)
              (day_loop (balancedRotation tasks) totalDays 0 (initial_state q))"
    by (simp add: day_loop_map_state [OF day])
  then show ?thesis
    unfolding distributeTasksSmartly_unfold [OF q] distributeTasksSmartly_unfold [OF q'] rot
    by (simp add: option.map_comp comp_def)
qed

text \<open>
  Claim C9. Two task lists that agree in everything but the day indices of their
  tasks get the same result, day indices included. In particular a second call on the
  array the first call has written its day indices into returns what the first call
  returned.
\<close>

theorem result_independent_of_dayIndex:
  assumes "map erase_day tasks = map erase_day tasks'"
  shows "distributeTasksSmartly tasks totalDays = distributeTasksSmartly tasks' totalDays"
proof -
  have "distributeTasksSmartly (map erase_day ts) totalDays = distributeTasksSmartly ts totalDays"
    for ts
    by (rule distributeTasksSmartly_map) (simp_all add: erase_day_def)
  from this [of tasks] this [of tasks'] assms show ?thesis by simp
qed

theorem result_independent_of_dayIndex_witness:
  "map erase_day [new_task ''t1'' physics, new_task ''t2'' ''Maths'', new_task ''t3'' physics]
     = map erase_day [(new_task ''t1'' physics)\<lparr>dayIndex := 5\<rparr>,
                      (new_task ''t2'' ''Maths'')\<lparr>dayIndex := -3\<rparr>,
                      (new_task ''t3'' physics)\<lparr>dayIndex := 0\<rparr>]
   \<and> distributeTasksSmartly
        [new_task ''t1'' physics, new_task ''t2'' ''Maths'', new_task ''t3'' physics] 2
     = distributeTasksSmartly
        [(new_task ''t1'' physics)\<lparr>dayIndex := 5\<rparr>,
         (new_task ''t2'' ''Maths'')\<lparr>dayIndex := -3\<rparr>,
         (new_task ''t3'' physics)\<lparr>dayIndex := 0\<rparr>] 2"
proof -
  have e: "map erase_day
             [new_task ''t1'' physics, new_task ''t2'' ''Maths'', new_task ''t3'' physics]
           = map erase_day [(new_task ''t1'' physics)\<lparr>dayIndex := 5\<rparr>,
                      (new_task ''t2'' ''Maths'')\<lparr>dayIndex := -3\<rparr>,
                      (new_task ''t3'' physics)\<lparr>dayIndex := 0\<rparr>]"
    by (simp add: erase_day_def new_task_def)
  from e result_independent_of_dayIndex [OF e, of 2] show ?thesis by simp
qed

section \<open>The counter \<open>attempts\<close> and the fallback\<close>

text \<open>
  Claim C5 says that \<open>attempts\<close> counts the consecutive passes of the rotation that add
  nothing, being reset by every pick, and that only once it exceeds twice the length of
  the rotation, with the day's target unmet, the rotation gives way to the scan for the
  first queue that has a task. The source means the same: line 65 calls the counter a
  breaker for empty queues, lines 88 and 89 describe the fallback as the case in which
  the loop went through all subjects and found no task, and lines 30, 31 and 82 give
  diversity as the purpose of the rotation. But line 90 adds one to \<open>attempts\<close> in every
  iteration and nothing resets it, so the fallback fires in every iteration after the
  first \<open>2 * length\<close> ones of a day, whether or not the rotation has found tasks, and it
  fires in addition to the pick of the rotation. On ten tasks, five of each of the first
  two subjects of the rotation, for one day, where the claim gives the alternating order
  of the rotation:
  \<^item> the first iteration takes a task and leaves \<open>attempts = 1\<close>;
  \<^item> after ten iterations four tasks are placed and \<open>attempts = 10\<close>;
  \<^item> the eleventh iteration places two tasks, \<^verbatim>\<open>P3\<close> by the rotation and \<^verbatim>\<open>P4\<close> by the
    fallback, although the rotation has found a task in each of its passes;
  \<^item> the twelfth iteration starts with \<open>attempts = 11\<close> and with the first queue of the
    scan, that of the first subject, not empty; it takes \<^verbatim>\<open>A3\<close> from the subject under
    the cursor and then \<^verbatim>\<open>P5\<close> by the fallback;
  \<^item> the call returns \<^verbatim>\<open>P1 A1 P2 A2 P3 P4 A3 P5 A4 A5\<close>, not the alternating order.
\<close>

theorem fallback_fires_after_successful_passes:
  "push_tasks (init_queues (Array_from_Set (map subject ten_tasks))) ten_tasks = Inr ten_queues
   \<and> balancedRotation ten_tasks = canonical_subjects
   \<and> tasksAddedToday (steps canonical_subjects 0 10 1 ten_start) = 1
   \<and> attempts (steps canonical_subjects 0 10 1 ten_start) = 1
   \<and> attempts (steps canonical_subjects 0 10 10 ten_start) = 10
   \<and> map id_t (distributedTasks (steps canonical_subjects 0 10 10 ten_start))
       = [''P1'', ''A1'', ''P2'', ''A2'']
   \<and> attempts (steps canonical_subjects 0 10 11 ten_start) = 11
   \<and> tasksAddedToday (steps canonical_subjects 0 10 11 ten_start) = 6
   \<and> map id_t (distributedTasks (steps canonical_subjects 0 10 11 ten_start))
       = [''P1'', ''A1'', ''P2'', ''A2'', ''P3'', ''P4'']
   \<and> subject_at canonical_subjects
        (subjectPointer (steps canonical_subjects 0 10 11 ten_start)) = arabic
   \<and> find (has_tasks (queues (steps canonical_subjects 0 10 11 ten_start)))
        (Object_keys (queues (steps canonical_subjects 0 10 11 ten_start))) = Some physics
   \<and> map id_t (distributedTasks (steps canonical_subjects 0 10 12 ten_start))
       = [''P1'', ''A1'', ''P2'', ''A2'', ''P3'', ''P4'', ''A3'', ''P5'']
   \<and> map_option (map_sum id (map id_t)) (distributeTasksSmartly ten_tasks 1)
       = Some (Inr [''P1'', ''A1'', ''P2'', ''A2'', ''P3'', ''P4'', ''A3'', ''P5'', ''A4'',
                    ''A5''])
   \<and> map_option (map_sum id (map id_t)) (distributeTasksSmartly ten_tasks 1)
       \<noteq> Some (Inr [''P1'', ''A1'', ''P2'', ''A2'', ''P3'', ''A3'', ''P4'', ''A4'', ''P5'',
                    ''A5''])"
  by code_simp

section \<open>The empty subject and the subject \<^verbatim>\<open>__proto__\<close>\<close>

text \<open>
  Claim C1 says that for a positive \<open>totalDays\<close> the result holds exactly the tasks
  of the input. Two subjects break this.
  \<^item> The empty string. \<^verbatim>\<open>if (anySubject)\<close> in line 94 takes the empty string that
    \<^verbatim>\<open>find\<close> returns for "nothing found" and runs the \<^verbatim>\<open>break\<close> of line 103. With three
    tasks of the empty subject and one day, the rotation places two tasks in its first
    twelve iterations; the thirteenth reaches the fallback, which leaves the loop, and
    the third task is not in the result.
  \<^item> \<^verbatim>\<open>__proto__\<close>. A task of this subject is pushed on the array that line 23 has
    installed as the prototype of \<^verbatim>\<open>queues\<close>, which \<^verbatim>\<open>Object.values\<close> does not list: with
    one such task and one day the count of line 54 is \<open>0\<close>, the \<^verbatim>\<open>break\<close> of line 56
    is taken on day \<open>0\<close>, and the result is empty.

  Lemma \<open>conservation_for_plain_subjects\<close> shows that no task is lost in any other way.
\<close>

theorem tasks_are_dropped:
  "distributeTasksSmartly [new_task ''t1'' [], new_task ''t2'' [], new_task ''t3'' []] 1
     = Some (Inr [(new_task ''t1'' [])\<lparr>dayIndex := 0\<rparr>, (new_task ''t2'' [])\<lparr>dayIndex := 0\<rparr>])
   \<and> distributeTasksSmartly [new_task ''t1'' ''__proto__''] 1 = Some (Inr [])"
  by code_simp

text \<open>
  Claim C3 says that of two tasks of one subject the earlier one gets the earlier or
  the same day and comes first in the result. The same two subjects break this, the
  later task of a pair being dropped.
  \<^item> With five tasks of a subject \<^verbatim>\<open>Maths\<close> and three of the empty subject in one day,
    the fallback takes the \<^verbatim>\<open>Maths\<close> tasks that are left and then meets the queue of
    the empty subject: the call returns without \<^verbatim>\<open>e3\<close>, which follows \<^verbatim>\<open>e2\<close> in the
    input.
  \<^item> With two tasks of subject \<^verbatim>\<open>__proto__\<close> followed by a task of another subject, and
    one day, the target of the day is \<open>1\<close>, the rotation takes the first \<^verbatim>\<open>__proto__\<close>
    task, and the call returns that task alone.

  Lemma \<open>subject_order_for_plain_subjects\<close> shows the order of the claim for every
  other input, and lemma \<open>subject_order_kept\<close> shows for every input that the tasks of a
  subject that reach the result do so in their order.
\<close>

theorem later_task_of_subject_is_dropped:
  "map_option (map_sum id (map (\<lambda>t. (id_t t, dayIndex t))))
     (distributeTasksSmartly
        [new_task ''m1'' ''Maths'', new_task ''e1'' [], new_task ''m2'' ''Maths'',
         new_task ''e2'' [], new_task ''m3'' ''Maths'', new_task ''e3'' [],
         new_task ''m4'' ''Maths'', new_task ''m5'' ''Maths''] 1)
     = Some (Inr [(''m1'', 0), (''e1'', 0), (''m2'', 0), (''e2'', 0), (''m3'', 0), (''m4'', 0),
                  (''m5'', 0)])
   \<and> distributeTasksSmartly
       [new_task ''p1'' ''__proto__'', new_task ''p2'' ''__proto__'', new_task ''m1'' ''Maths''] 1
     = Some (Inr [(new_task ''p1'' ''__proto__'')\<lparr>dayIndex := 0\<rparr>])"
  by code_simp

end
